theory Spec2Isabelle
  imports Main "HOL-Library.Word" "HOL-Library.Sublist" "HOL-Library.Multiset"
begin

section \<open>JavaScript strings and numbers\<close>

text \<open>
  A JavaScript string is a sequence of UTF-16 code units. The regular expressions and the
  \<^verbatim>\<open>split\<close> calls of the upload endpoints work on code units (no \<^verbatim>\<open>u\<close> flag), so a
  string is modelled as a list of 16-bit words. \<open>js\<close> embeds an ASCII literal.
\<close>

type_synonym jschar = "16 word"
type_synonym jsstring = "jschar list"
type_synonym byte = "8 word"

definition js :: "string \<Rightarrow> jsstring" where
  "js s = map (\<lambda>c. of_nat (of_char c)) s"

text \<open>
  \<^verbatim>\<open>String.prototype.split(sep)\<close> with a string separator: the pieces between the
  non-overlapping occurrences of \<open>sep\<close>, scanned from the left. With the empty separator
  the string is split into its code units.
\<close>

function (sequential) split_from :: "'a list \<Rightarrow> 'a list \<Rightarrow> 'a list \<Rightarrow> 'a list list" where
  "split_from sep acc [] = [rev acc]"
| "split_from sep acc (c # cs) =
     (if sep \<noteq> [] \<and> prefix sep (c # cs)
      then rev acc # split_from sep [] (drop (length sep) (c # cs))
      else split_from sep (c # acc) cs)"
  by pat_completeness auto
termination
  by (relation "measure (\<lambda>(sep, acc, s). length s)") (auto simp: neq_Nil_conv)

definition split_js :: "'a list \<Rightarrow> 'a list \<Rightarrow> 'a list list" where
  "split_js sep s = (if sep = [] then map (\<lambda>c. [c]) s else split_from sep [] s)"

text \<open>
  The white space of \<^verbatim>\<open>\s\<close> and of \<^verbatim>\<open>parseInt\<close>'s trimming (WhiteSpace and
  LineTerminator of ECMAScript), and the word characters of \<^verbatim>\<open>\w\<close>.
\<close>

definition isWhiteSpace :: "jschar \<Rightarrow> bool" where
  "isWhiteSpace c \<longleftrightarrow>
     (0x09 \<le> c \<and> c \<le> 0x0D) \<or> c = 0x20 \<or> c = 0xA0 \<or> c = 0x1680 \<or>
     (0x2000 \<le> c \<and> c \<le> 0x200A) \<or> c = 0x2028 \<or> c = 0x2029 \<or> c = 0x202F \<or>
     c = 0x205F \<or> c = 0x3000 \<or> c = 0xFEFF"

definition isDigit :: "jschar \<Rightarrow> bool" where
  "isDigit c \<longleftrightarrow> 0x30 \<le> c \<and> c \<le> 0x39"

definition isWordChar :: "jschar \<Rightarrow> bool" where
  "isWordChar c \<longleftrightarrow>
     (0x41 \<le> c \<and> c \<le> 0x5A) \<or> (0x61 \<le> c \<and> c \<le> 0x7A) \<or> isDigit c \<or> c = 0x5F"

text \<open>
  \<^verbatim>\<open>Number.parseInt(s, 10)\<close>: leading white space is dropped, an optional sign is read,
  then the longest run of decimal digits; \<open>None\<close> is NaN (no digit). The values here are
  chunk indices, far below \<open>2^53\<close>, so the result is an exact integer.
\<close>

definition digitVal :: "jschar \<Rightarrow> int" where
  "digitVal c = uint c - 48"

definition digitsVal :: "jsstring \<Rightarrow> int" where
  "digitsVal ds = foldl (\<lambda>a d. 10 * a + digitVal d) 0 ds"

definition parseDigits :: "jsstring \<Rightarrow> int option" where
  "parseDigits s =
     (let ds = takeWhile isDigit s in if ds = [] then None else Some (digitsVal ds))"

definition parseInt :: "jsstring \<Rightarrow> int option" where
  "parseInt s =
     (case dropWhile isWhiteSpace s of
        [] \<Rightarrow> None
      | c # cs \<Rightarrow>
          if c = 0x2D then map_option uminus (parseDigits cs)
          else if c = 0x2B then parseDigits cs
          else parseDigits (c # cs))"

text \<open>The decimal digits of a natural number, and \<^verbatim>\<open>Number.prototype.toString\<close> on an integer.\<close>

fun showNat :: "nat \<Rightarrow> jsstring" where
  "showNat n = (if n < 10 then [of_nat (48 + n)] else showNat (n div 10) @ [of_nat (48 + n mod 10)])"

declare showNat.simps [simp del]

definition numToString :: "int \<Rightarrow> jsstring" where
  "numToString i = (if i < 0 then 0x2D # showNat (nat (- i)) else showNat (nat i))"

section \<open>The temporary chunk store and the storage backend\<close>

text \<open>
  Both are external services. A stored object has a pathname, an upload time in
  milliseconds and its bytes; its URL is determined by the pathname, so the model
  addresses objects by pathname.
\<close>

record blob =
  pathname :: jsstring
  uploadedAt :: int
  content :: "byte list"

type_synonym store = "blob list"

text \<open>
  Modelled from the spec: the chunk store's \<^verbatim>\<open>put\<close>, \<^verbatim>\<open>list\<close> and \<^verbatim>\<open>del\<close> are a library
  outside the repository. The spec's contract for the chunk endpoint is that the object is
  stored at a location keyed by the pathname and that storing under the same pathname
  again overwrites in place; \<^verbatim>\<open>list\<close> returns the objects whose pathname starts with
  the prefix; \<^verbatim>\<open>del\<close> removes the object.
\<close>

definition put_blob :: "jsstring \<Rightarrow> byte list \<Rightarrow> int \<Rightarrow> store \<Rightarrow> store" where
  "put_blob p c t st =
     (let b = \<lparr>pathname = p, uploadedAt = t, content = c\<rparr>
      in if p \<in> pathname ` set st
         then map (\<lambda>x. if pathname x = p then b else x) st
         else st @ [b])"

definition list_blobs :: "jsstring \<Rightarrow> store \<Rightarrow> blob list" where
  "list_blobs pre st = filter (\<lambda>b. prefix pre (pathname b)) st"

definition del_blob :: "jsstring \<Rightarrow> store \<Rightarrow> store" where
  "del_blob p st = filter (\<lambda>b. pathname b \<noteq> p) st"

text \<open>
  The storage backend (\<^verbatim>\<open>uploadToGooglePhotos\<close>) takes bytes, a filename and a mime type
  and returns an opaque media item id, or throws. The server state holds the stored chunk
  objects and the media items created so far.
\<close>

record media_item =
  m_bytes :: "byte list"
  m_filename :: jsstring
  m_mimeType :: jsstring

record server =
  blobs :: store
  media :: "media_item list"

section \<open>The chunk endpoint\<close>

text \<open>
  The form fields arrive as strings; \<open>chunk\<close> is \<open>None\<close> when the field is absent. The
  response's \<^verbatim>\<open>progress\<close> and \<^verbatim>\<open>url\<close> fields are not read by the client and are left out.
  \<open>putOk\<close> says whether the store accepted the object and \<open>now\<close> is its upload time.
\<close>

record chunk_request =
  cr_chunk :: "byte list option"
  cr_uploadId :: jsstring
  cr_chunkIndex :: jsstring
  cr_totalChunks :: jsstring

datatype chunk_response = ChunkMissingFields | ChunkReceived int | ChunkFailed

definition chunkPath :: "jsstring \<Rightarrow> int \<Rightarrow> jsstring" where
  "chunkPath uploadId chunkIndex =
     js ''uploads/'' @ uploadId @ js ''/chunk-'' @ numToString chunkIndex @ js ''.bin''"

definition chunk_POST :: "bool \<Rightarrow> int \<Rightarrow> chunk_request \<Rightarrow> server \<Rightarrow> chunk_response \<times> server" where
  "chunk_POST putOk now req sv =
     (case (cr_chunk req, parseInt (cr_chunkIndex req), parseInt (cr_totalChunks req)) of
        (Some chunk, Some chunkIndex, Some totalChunks) \<Rightarrow>
          if cr_uploadId req = [] then (ChunkMissingFields, sv)
          else if \<not> putOk then (ChunkFailed, sv)
          else (ChunkReceived chunkIndex,
                sv\<lparr>blobs := put_blob (chunkPath (cr_uploadId req) chunkIndex) chunk now (blobs sv)\<rparr>)
      | _ \<Rightarrow> (ChunkMissingFields, sv))"

section \<open>The completion endpoint\<close>

record complete_request =
  q_uploadId :: jsstring
  q_filename :: jsstring
  q_contentType :: jsstring
  q_totalChunks :: int

datatype complete_response =
    MissingFields
  | NotAllChunks nat int
  | Completed jsstring jsstring nat
  | CompleteFailed

text \<open>
  The comparator of the sort reads the index out of the pathname:
  \<^verbatim>\<open>Number.parseInt(a.pathname.split("chunk-")[1].split(".")[0], 10)\<close>. The outer \<open>None\<close>
  is the TypeError of \<^verbatim>\<open>undefined.split\<close> when the pathname has no \<^verbatim>\<open>chunk-\<close>; the inner
  \<open>None\<close> is NaN.
\<close>

definition chunkIndexOf :: "jsstring \<Rightarrow> int option option" where
  "chunkIndexOf p =
     (case split_js (js ''chunk-'') p of
        _ # x # _ \<Rightarrow>
          (case split_js (js ''.'') x of
             [] \<Rightarrow> None
           | y # _ \<Rightarrow> Some (parseInt y))
      | _ \<Rightarrow> None)"

text \<open>
  \<^verbatim>\<open>blobs.sort((a, b) => indexA - indexB)\<close>. When every key is a number the comparator
  is a consistent one, and \<^verbatim>\<open>Array.prototype.sort\<close>, which is stable, returns the one stably
  sorted list: the insertion sort below computes it. An array of fewer than two elements
  is returned as it is. When some key is NaN the comparator answers NaN, which is not a
  consistent comparison, and the order of the result is left to the JavaScript engine:
  it is the parameter \<open>engineOrder\<close>, about which nothing is assumed.
\<close>

definition compareBlobs :: "blob \<Rightarrow> blob \<Rightarrow> int" where
  "compareBlobs a b =
     (case (chunkIndexOf (pathname a), chunkIndexOf (pathname b)) of
        (Some (Some indexA), Some (Some indexB)) \<Rightarrow> indexA - indexB
      | _ \<Rightarrow> 0)"

fun insertBlob :: "blob \<Rightarrow> blob list \<Rightarrow> blob list" where
  "insertBlob x [] = [x]"
| "insertBlob x (y # ys) = (if compareBlobs x y \<le> 0 then x # y # ys else y # insertBlob x ys)"

definition numericKey :: "blob \<Rightarrow> bool" where
  "numericKey b = (case chunkIndexOf (pathname b) of Some (Some _) \<Rightarrow> True | _ \<Rightarrow> False)"

definition sortBlobs :: "(blob list \<Rightarrow> blob list) \<Rightarrow> blob list \<Rightarrow> blob list" where
  "sortBlobs engineOrder xs =
     (if length xs < 2 then xs
      else if list_all numericKey xs then foldr insertBlob xs []
      else engineOrder xs)"

text \<open>\<^verbatim>\<open>filename.replace(/[^\w\s.-]/g, "_")\<close>\<close>

definition allowedChar :: "jschar \<Rightarrow> bool" where
  "allowedChar c \<longleftrightarrow> isWordChar c \<or> isWhiteSpace c \<or> c = 0x2E \<or> c = 0x2D"

definition sanitizeFilename :: "jsstring \<Rightarrow> jsstring" where
  "sanitizeFilename filename = map (\<lambda>c. if allowedChar c then c else 0x5F) filename"

text \<open>
  Deleting the chunk objects after the upload: a failed deletion (\<open>delFails\<close>) is logged
  and the object stays.
\<close>

definition deleteAll :: "(jsstring \<Rightarrow> bool) \<Rightarrow> blob list \<Rightarrow> store \<Rightarrow> store" where
  "deleteAll delFails bs st =
     foldl (\<lambda>s b. if delFails (pathname b) then s else del_blob (pathname b) s) st bs"

text \<open>
  The handler. \<open>backend\<close> is the storage backend: the media item id, or \<open>None\<close> when
  it throws; \<open>engineOrder\<close> is the engine's order for a sort whose keys are not all
  numbers. A pathname without \<^verbatim>\<open>chunk-\<close> throws inside the comparator, which runs
  only when there are at least two objects to sort.
\<close>

definition complete_POST ::
  "(blob list \<Rightarrow> blob list) \<Rightarrow> (media_item \<Rightarrow> jsstring option) \<Rightarrow> (jsstring \<Rightarrow> bool)
     \<Rightarrow> complete_request \<Rightarrow> server \<Rightarrow> complete_response \<times> server" where
  "complete_POST engineOrder backend delFails req sv =
     (if q_uploadId req = [] \<or> q_filename req = [] \<or> q_contentType req = [] \<or> q_totalChunks req = 0
      then (MissingFields, sv)
      else
        let found = list_blobs (js ''uploads/'' @ q_uploadId req @ js ''/chunk-'') (blobs sv) in
        if int (length found) \<noteq> q_totalChunks req
        then (NotAllChunks (length found) (q_totalChunks req), sv)
        else if 2 \<le> length found \<and> (\<exists>b \<in> set found. chunkIndexOf (pathname b) = None)
        then (CompleteFailed, sv)
        else
          let sortedBlobs = sortBlobs engineOrder found;
              combinedBuffer = concat (map content sortedBlobs);
              sanitizedFilename = sanitizeFilename (q_filename req);
              item = \<lparr>m_bytes = combinedBuffer, m_filename = sanitizedFilename,
                      m_mimeType = q_contentType req\<rparr>
          in case backend item of
               None \<Rightarrow> (CompleteFailed, sv)
             | Some mediaItemId \<Rightarrow>
                 (Completed mediaItemId sanitizedFilename (length sortedBlobs),
                  \<lparr>blobs = deleteAll delFails sortedBlobs (blobs sv),
                   media = media sv @ [item]\<rparr>))"

definition complete_ok :: "complete_response \<Rightarrow> bool" where
  "complete_ok r = (case r of Completed _ _ _ \<Rightarrow> True | _ \<Rightarrow> False)"

section \<open>The cleanup endpoints\<close>

datatype cleanup_response =
    CleanupMissingId
  | NoChunks
  | Cleaned nat nat nat

text \<open>
  Deleting a list of objects concurrently and counting the outcomes
  (\<^verbatim>\<open>Promise.allSettled\<close> over \<^verbatim>\<open>del\<close>): the objects whose deletion succeeded are gone,
  the others stay.
\<close>

definition successfulDeletes :: "(jsstring \<Rightarrow> bool) \<Rightarrow> blob list \<Rightarrow> nat" where
  "successfulDeletes delFails bs = length (filter (\<lambda>b. \<not> delFails (pathname b)) bs)"

definition failedDeletes :: "(jsstring \<Rightarrow> bool) \<Rightarrow> blob list \<Rightarrow> nat" where
  "failedDeletes delFails bs = length (filter (\<lambda>b. delFails (pathname b)) bs)"

text \<open>Targeted cleanup of one upload.\<close>

definition cleanup_POST :: "(jsstring \<Rightarrow> bool) \<Rightarrow> jsstring \<Rightarrow> server \<Rightarrow> cleanup_response \<times> server" where
  "cleanup_POST delFails uploadId sv =
     (if uploadId = [] then (CleanupMissingId, sv)
      else
        let found = list_blobs (js ''uploads/'' @ uploadId @ js ''/'') (blobs sv) in
        if found = [] then (NoChunks, sv)
        else (Cleaned (successfulDeletes delFails found) (failedDeletes delFails found) (length found),
              sv\<lparr>blobs := deleteAll delFails found (blobs sv)\<rparr>))"

text \<open>
  The orphan sweep. The upload id of an object is the second component of its pathname
  split at the slashes, provided the first is \<^verbatim>\<open>uploads\<close>.
\<close>

definition uploadIdOf :: "jsstring \<Rightarrow> jsstring option" where
  "uploadIdOf p =
     (case split_js (js ''/'') p of
        a # uploadId # _ \<Rightarrow> if a = js ''uploads'' then Some uploadId else None
      | _ \<Rightarrow> None)"

text \<open>
  \<^verbatim>\<open>uploadGroups\<close> is a \<^verbatim>\<open>Map\<close>, which iterates in the order of first insertion: an
  association list, with a new key appended at the end.
\<close>

definition addToGroup :: "(jsstring \<times> blob list) list \<Rightarrow> blob \<Rightarrow> (jsstring \<times> blob list) list" where
  "addToGroup groups b =
     (case uploadIdOf (pathname b) of
        None \<Rightarrow> groups
      | Some uploadId \<Rightarrow>
          if uploadId \<in> fst ` set groups
          then map (\<lambda>(k, bs). if k = uploadId then (k, bs @ [b]) else (k, bs)) groups
          else groups @ [(uploadId, [b])])"

definition groupBlobs :: "blob list \<Rightarrow> (jsstring \<times> blob list) list" where
  "groupBlobs bs = foldl addToGroup [] bs"

text \<open>
  \<^verbatim>\<open>uploadBlobs.reduce((oldest, current) => currentTime < oldestTime ? current : oldest)\<close>,
  without an initial value: the first object starts as the oldest. A group is never
  empty; on an empty list \<^verbatim>\<open>reduce\<close> throws, which is \<open>None\<close> here.
\<close>

definition oldestBlob :: "blob list \<Rightarrow> blob option" where
  "oldestBlob bs =
     (case bs of
        [] \<Rightarrow> None
      | b # rest \<Rightarrow>
          Some (foldl (\<lambda>oldest current.
                   if uploadedAt current < uploadedAt oldest then current else oldest) b rest))"

definition ORPHAN_THRESHOLD :: int where
  "ORPHAN_THRESHOLD = 24 * 60 * 60 * 1000"

record sweep_state =
  sw_store :: store
  totalDeleted :: nat
  totalFailed :: nat

definition sweepGroup :: "(jsstring \<Rightarrow> bool) \<Rightarrow> int \<Rightarrow> sweep_state \<Rightarrow> jsstring \<times> blob list \<Rightarrow> sweep_state" where
  "sweepGroup delFails now s g =
     (case oldestBlob (snd g) of
        None \<Rightarrow> s\<lparr>totalFailed := totalFailed s + length (snd g)\<rparr>
      | Some oldest \<Rightarrow>
          let blobAge = now - uploadedAt oldest in
          if blobAge > ORPHAN_THRESHOLD
          then \<lparr>sw_store = deleteAll delFails (snd g) (sw_store s),
                totalDeleted = totalDeleted s + successfulDeletes delFails (snd g),
                totalFailed = totalFailed s + failedDeletes delFails (snd g)\<rparr>
          else s)"

datatype sweep_response =
    NoUploadChunks
  | Swept nat nat nat

definition cleanupOrphaned_POST :: "(jsstring \<Rightarrow> bool) \<Rightarrow> int \<Rightarrow> server \<Rightarrow> sweep_response \<times> server" where
  "cleanupOrphaned_POST delFails now sv =
     (let found = list_blobs (js ''uploads/'') (blobs sv) in
      if found = [] then (NoUploadChunks, sv)
      else
        let uploadGroups = groupBlobs found;
            s = foldl (sweepGroup delFails now)
                  \<lparr>sw_store = blobs sv, totalDeleted = 0, totalFailed = 0\<rparr> uploadGroups
        in (Swept (totalDeleted s) (totalFailed s) (length uploadGroups),
            sv\<lparr>blobs := sw_store s\<rparr>))"

section \<open>Splitting a file and sending its chunks\<close>

text \<open>
  \<^verbatim>\<open>Math.ceil(file.size / chunkSize)\<close> for a positive chunk size, in exact arithmetic. (For
  the default chunk size, a power of two, the floating-point quotient is exact as well.)
\<close>

definition totalChunksOf :: "nat \<Rightarrow> nat \<Rightarrow> nat" where
  "totalChunksOf fileSize chunkSize = (fileSize + chunkSize - 1) div chunkSize"

text \<open>
  \<^verbatim>\<open>file.slice(start, end)\<close> with \<^verbatim>\<open>start = chunkIndex * chunkSize\<close> and
  \<^verbatim>\<open>end = Math.min(start + chunkSize, file.size)\<close>.
\<close>

definition chunkBytes :: "byte list \<Rightarrow> nat \<Rightarrow> nat \<Rightarrow> byte list" where
  "chunkBytes fileData chunkSize chunkIndex =
     (let start = chunkIndex * chunkSize;
          end = min (start + chunkSize) (length fileData)
      in take (end - start) (drop start fileData))"

text \<open>The form data that \<^verbatim>\<open>uploadChunk\<close> posts for one chunk of a file.\<close>

definition uploadChunkRequest :: "byte list \<Rightarrow> nat \<Rightarrow> jsstring \<Rightarrow> nat \<Rightarrow> nat \<Rightarrow> chunk_request" where
  "uploadChunkRequest fileData chunkSize fileId totalChunks chunkIndex =
     \<lparr>cr_chunk = Some (chunkBytes fileData chunkSize chunkIndex),
      cr_uploadId = fileId,
      cr_chunkIndex = numToString (int chunkIndex),
      cr_totalChunks = numToString (int totalChunks)\<rparr>"

text \<open>
  A history of chunk requests that reached the chunk endpoint and were stored: each entry
  is the chunk index and the time of the store. The order of the list is the order in which
  the requests finished; an index may occur more than once (a retry or a duplicate send).
\<close>

definition sendChunk ::
  "byte list \<Rightarrow> nat \<Rightarrow> jsstring \<Rightarrow> nat \<Rightarrow> server \<Rightarrow> nat \<times> int \<Rightarrow> server" where
  "sendChunk fileData chunkSize fileId totalChunks sv send =
     snd (chunk_POST True (snd send)
            (uploadChunkRequest fileData chunkSize fileId totalChunks (fst send)) sv)"

definition sendChunks ::
  "byte list \<Rightarrow> nat \<Rightarrow> jsstring \<Rightarrow> nat \<Rightarrow> server \<Rightarrow> (nat \<times> int) list \<Rightarrow> server" where
  "sendChunks fileData chunkSize fileId totalChunks sv sends =
     foldl (sendChunk fileData chunkSize fileId totalChunks) sv sends"

section \<open>The upload manager: data\<close>

datatype file_status = Pending | Queued | Uploading | Paused | FileCompleted | FileError

datatype chunk_status = ChunkPending | ChunkUploading | ChunkCompleted | ChunkError

record chunk =
  c_index :: nat
  c_status :: chunk_status
  c_retries :: nat

text \<open>
  \<^verbatim>\<open>queuePosition\<close> is undefined, a number, or (after \<^verbatim>\<open>uploadFile\<close>'s error branch,
  which passes the error message as third argument of \<^verbatim>\<open>updateFileStatus\<close>) a text.
\<close>

datatype queue_position = Undefined | Position nat | MessageText

text \<open>
  A managed file. \<open>f_progress\<close> is a number or NaN (\<open>None\<close>). The fields that the
  manager never reads back (\<^verbatim>\<open>file\<close>, \<^verbatim>\<open>preview\<close>, \<^verbatim>\<open>name\<close>, \<^verbatim>\<open>type\<close>, \<^verbatim>\<open>retries\<close>,
  \<^verbatim>\<open>error\<close>) are left out.
\<close>

record chunked_file =
  f_id :: jsstring
  f_size :: nat
  f_totalChunks :: nat
  f_uploadedChunks :: nat
  f_status :: file_status
  f_progress :: "nat option"
  f_chunkSize :: nat
  f_queuePosition :: queue_position
  f_chunks :: "chunk list"

record options =
  o_chunkSize :: nat
  o_maxRetries :: nat
  o_retryDelay :: nat
  o_maxConcurrentChunks :: nat

definition defaultOptions :: options where
  "defaultOptions = \<lparr>o_chunkSize = 2 * 1024 * 1024, o_maxRetries = 3, o_retryDelay = 2000,
                      o_maxConcurrentChunks = 3\<rparr>"

text \<open>
  \<^verbatim>\<open>Math.round((completedChunks / file.totalChunks) * 100)\<close> in exact arithmetic:
  \<^verbatim>\<open>Math.round\<close> rounds halves up, and \<open>0 / 0\<close> is NaN.
\<close>

definition progressOf :: "nat \<Rightarrow> nat \<Rightarrow> nat option" where
  "progressOf completedChunks totalChunks =
     (if totalChunks = 0 then None
      else Some ((200 * completedChunks + totalChunks) div (2 * totalChunks)))"

text \<open>
  The asynchronous parts of the manager. A \<open>task\<close> is one run of \<^verbatim>\<open>processQueue\<close> that
  is inside \<^verbatim>\<open>await this.uploadFile(...)\<close>: the file, the handle of its
  \<^verbatim>\<open>AbortController\<close>, the point where \<^verbatim>\<open>uploadFile\<close> is suspended, and the local
  variables of \<^verbatim>\<open>uploadChunks\<close> (\<^verbatim>\<open>chunkQueue\<close>, \<^verbatim>\<open>activeChunks\<close>, \<^verbatim>\<open>results\<close>).
  A \<open>request\<close> is a chunk POST in flight, started by the loop of the task \<open>r_task\<close>; it
  carries no abort signal and so outlives the loop that started it. A timer is a pending
  \<^verbatim>\<open>setTimeout\<close> with its deadline.
\<close>

datatype phase = AwaitInit | ChunkLoop | AwaitComplete

datatype result = RNull | RTrue | RError

record task =
  t_file :: jsstring
  t_ctl :: nat
  t_phase :: phase
  chunkQueue :: "chunk list"
  activeChunks :: "nat list"
  results :: "result list"

record request =
  r_task :: nat
  r_file :: jsstring
  r_index :: nat

datatype timer = TProcessQueue | TLoopWake nat | TRetry nat chunk

text \<open>
  The manager's fields, the controllers that were aborted, the pending work, a clock in
  milliseconds, the log of chunk POSTs issued (file id and chunk index), and the file ids
  handed out so far.
\<close>

record manager =
  files :: "chunked_file list"
  activeFileId :: "jsstring option"
  uploadQueue :: "jsstring list"
  paused :: bool
  processingQueue :: bool
  abortControllers :: "(jsstring \<times> nat) list"
  aborted :: "nat list"
  nextCtl :: nat
  tasks :: "task list"
  requests :: "request list"
  timers :: "(nat \<times> timer) list"
  clock :: nat
  sendLog :: "(jsstring \<times> nat) list"
  seenIds :: "jsstring list"

definition initialManager :: manager where
  "initialManager =
     \<lparr>files = [], activeFileId = None, uploadQueue = [], paused = False, processingQueue = False,
      abortControllers = [], aborted = [], nextCtl = 0, tasks = [], requests = [], timers = [],
      clock = 0, sendLog = [], seenIds = []\<rparr>"

section \<open>The upload manager: updates of the file list\<close>

text \<open>
  Every update rebuilds \<^verbatim>\<open>this.files\<close> with \<^verbatim>\<open>map\<close>. The callbacks of the options are
  the default no-ops.
\<close>

definition updateFileStatus :: "jsstring \<Rightarrow> file_status \<Rightarrow> queue_position \<Rightarrow> manager \<Rightarrow> manager" where
  "updateFileStatus fileId st queuePos m =
     m\<lparr>files := map (\<lambda>file. if f_id file = fileId
                          then file\<lparr>f_status := st,
                                    f_queuePosition := (if queuePos \<noteq> Undefined then queuePos
                                                        else f_queuePosition file)\<rparr>
                          else file) (files m)\<rparr>"

text \<open>
  \<^verbatim>\<open>chunks[chunkIndex] = { ...chunks[chunkIndex], status }\<close>. The indices passed are
  positions of the file's own chunk list; a write past the end, which in JavaScript would
  extend the array, does not occur and is no change here.
\<close>

definition updateChunkStatus :: "jsstring \<Rightarrow> nat \<Rightarrow> chunk_status \<Rightarrow> manager \<Rightarrow> manager" where
  "updateChunkStatus fileId chunkIndex st m =
     m\<lparr>files := map (\<lambda>file. if f_id file = fileId
                          then let chunks = (f_chunks file)[chunkIndex :=
                                     (f_chunks file ! chunkIndex)\<lparr>c_status := st\<rparr>];
                                   uploadedChunks = length (filter (\<lambda>c. c_status c = ChunkCompleted) chunks)
                               in file\<lparr>f_chunks := chunks, f_uploadedChunks := uploadedChunks\<rparr>
                          else file) (files m)\<rparr>"

definition updateChunkRetries :: "jsstring \<Rightarrow> nat \<Rightarrow> nat \<Rightarrow> manager \<Rightarrow> manager" where
  "updateChunkRetries fileId chunkIndex retries m =
     m\<lparr>files := map (\<lambda>file. if f_id file = fileId
                          then file\<lparr>f_chunks := (f_chunks file)[chunkIndex :=
                                     (f_chunks file ! chunkIndex)\<lparr>c_retries := retries\<rparr>]\<rparr>
                          else file) (files m)\<rparr>"

definition updateFileProgress :: "jsstring \<Rightarrow> manager \<Rightarrow> manager" where
  "updateFileProgress fileId m =
     (case find (\<lambda>f. f_id f = fileId) (files m) of
        None \<Rightarrow> m
      | Some file \<Rightarrow>
          let completedChunks = length (filter (\<lambda>c. c_status c = ChunkCompleted) (f_chunks file));
              progress = progressOf completedChunks (f_totalChunks file)
          in m\<lparr>files := map (\<lambda>f. if f_id f = fileId
                                   then f\<lparr>f_progress := progress, f_uploadedChunks := completedChunks\<rparr>
                                   else f) (files m)\<rparr>)"

definition addTimer :: "nat \<Rightarrow> timer \<Rightarrow> manager \<Rightarrow> manager" where
  "addTimer delay t m = m\<lparr>timers := timers m @ [(clock m + delay, t)]\<rparr>"

text \<open>One round of the \<^verbatim>\<open>forEach\<close> in \<^verbatim>\<open>updateQueuePositions\<close>, for a file of the snapshot.\<close>

definition queueFile :: "manager \<Rightarrow> chunked_file \<times> nat \<Rightarrow> manager" where
  "queueFile m fi =
     (let file = fst fi; idx = snd fi;
          m1 = m\<lparr>uploadQueue := uploadQueue m @ [f_id file]\<rparr>;
          m2 = (if f_status file \<noteq> Queued then updateFileStatus (f_id file) Queued (Position idx) m1
                else m1)
      in m2\<lparr>files := map (\<lambda>f. if f_id f = f_id file then f\<lparr>f_queuePosition := Position idx\<rparr> else f)
                         (files m2)\<rparr>)"

definition updateQueuePositions :: "manager \<Rightarrow> manager" where
  "updateQueuePositions m =
     (let pendingFiles = filter (\<lambda>file. f_status file \<noteq> FileCompleted \<and> f_status file \<noteq> FileError
                                          \<and> f_status file \<noteq> Uploading) (files m);
          queuedFiles = filter (\<lambda>file. Some (f_id file) \<noteq> activeFileId m) pendingFiles;
          m1 = foldl queueFile (m\<lparr>uploadQueue := []\<rparr>) (zip queuedFiles [0..<length queuedFiles])
      in if activeFileId m1 = None \<and> \<not> paused m1 \<and> uploadQueue m1 \<noteq> []
         then addTimer 0 TProcessQueue m1
         else m1)"

text \<open>\<^verbatim>\<open>abortControllers\<close> is a \<^verbatim>\<open>Map\<close> from file id to controller.\<close>

definition abortUpload :: "jsstring \<Rightarrow> manager \<Rightarrow> manager" where
  "abortUpload fileId m =
     (let m1 = (case map_of (abortControllers m) fileId of
                  None \<Rightarrow> m
                | Some controller \<Rightarrow>
                    m\<lparr>aborted := controller # aborted m,
                      abortControllers := filter (\<lambda>kc. fst kc \<noteq> fileId) (abortControllers m)\<rparr>);
          m2 = updateFileStatus fileId Pending Undefined m1
      in if activeFileId m2 = Some fileId then m2\<lparr>activeFileId := None\<rparr> else m2)"

section \<open>The upload manager: queue processing\<close>

text \<open>
  What \<^verbatim>\<open>processQueue\<close> does after \<^verbatim>\<open>await this.uploadFile(nextFileId)\<close> has returned,
  followed by its \<^verbatim>\<open>finally\<close>. (\<^verbatim>\<open>uploadFile\<close> catches every error of its body, so the
  \<^verbatim>\<open>catch\<close> branch of \<^verbatim>\<open>processQueue\<close> is not taken.)
\<close>

definition finishQueuePass :: "manager \<Rightarrow> manager" where
  "finishQueuePass m =
     (let m1 = m\<lparr>uploadQueue := tl (uploadQueue m)\<rparr>;
          m2 = m1\<lparr>activeFileId := None\<rparr>;
          m3 = updateQueuePositions m2;
          m4 = addTimer 0 TProcessQueue m3
      in m4\<lparr>processingQueue := False\<rparr>)"

text \<open>
  \<^verbatim>\<open>uploadFile\<close> up to its first \<^verbatim>\<open>await\<close> (the init request). When it returns at once,
  the rest of \<^verbatim>\<open>processQueue\<close> runs before any other event.
\<close>

definition beginUploadFile :: "jsstring \<Rightarrow> manager \<Rightarrow> manager" where
  "beginUploadFile fileId m =
     (case find (\<lambda>f. f_id f = fileId) (files m) of
        None \<Rightarrow> finishQueuePass m
      | Some file \<Rightarrow>
          if f_status file = FileCompleted \<or> f_status file = Uploading then finishQueuePass m
          else
            let m1 = updateFileStatus fileId Uploading Undefined m;
                controller = nextCtl m1
            in m1\<lparr>nextCtl := Suc controller,
                  abortControllers := filter (\<lambda>kc. fst kc \<noteq> fileId) (abortControllers m1)
                                      @ [(fileId, controller)],
                  tasks := tasks m1 @ [\<lparr>t_file = fileId, t_ctl = controller, t_phase = AwaitInit,
                                         chunkQueue = [], activeChunks = [], results = []\<rparr>]\<rparr>)"

definition processQueue :: "manager \<Rightarrow> manager" where
  "processQueue m =
     (if processingQueue m \<or> paused m then m
      else if uploadQueue m = [] then m
      else
        let m1 = m\<lparr>processingQueue := True\<rparr> in
        if activeFileId m1 \<noteq> None then m1\<lparr>processingQueue := False\<rparr>
        else
          case uploadQueue m1 of
            [] \<Rightarrow> m1\<lparr>processingQueue := False\<rparr>
          | nextFileId # _ \<Rightarrow>
              if nextFileId = [] then m1\<lparr>processingQueue := False\<rparr>
              else beginUploadFile nextFileId (m1\<lparr>activeFileId := Some nextFileId\<rparr>))"

section \<open>The upload manager: operations\<close>

text \<open>
  \<^verbatim>\<open>addFiles\<close>. A new file is given by its id and size. The ids come from the clock and a
  random string; the model takes them from the caller and requires them to be non-empty,
  distinct and never handed out before. The chunk size is positive.
\<close>

definition newChunkedFile :: "options \<Rightarrow> manager \<Rightarrow> jsstring \<times> nat \<Rightarrow> chunked_file" where
  "newChunkedFile opts m file =
     (let chunkSize = o_chunkSize opts;
          totalChunks = totalChunksOf (snd file) chunkSize;
          chunks = map (\<lambda>i. \<lparr>c_index = i, c_status = ChunkPending, c_retries = 0\<rparr>) [0..<totalChunks];
          initialStatus = (if activeFileId m \<noteq> None then Queued else Pending)
      in \<lparr>f_id = fst file, f_size = snd file, f_totalChunks = totalChunks, f_uploadedChunks = 0,
          f_status = initialStatus, f_progress = Some 0, f_chunkSize = chunkSize,
          f_queuePosition = Undefined, f_chunks = chunks\<rparr>)"

definition freshIds :: "manager \<Rightarrow> jsstring list \<Rightarrow> bool" where
  "freshIds m ids \<longleftrightarrow> distinct ids \<and> [] \<notin> set ids \<and> set ids \<inter> set (seenIds m) = {}"

definition addFiles :: "options \<Rightarrow> (jsstring \<times> nat) list \<Rightarrow> manager \<Rightarrow> manager" where
  "addFiles opts newFiles m =
     (if \<not> freshIds m (map fst newFiles) \<or> o_chunkSize opts = 0 then m
      else
        let chunkedFiles = map (newChunkedFile opts m) newFiles;
            m1 = m\<lparr>files := files m @ chunkedFiles, seenIds := seenIds m @ map fst newFiles\<rparr>
        in updateQueuePositions m1)"

definition removeFile :: "jsstring \<Rightarrow> manager \<Rightarrow> manager" where
  "removeFile fileId m =
     (let m1 = (case find (\<lambda>f. f_id f = fileId) (files m) of
                  None \<Rightarrow> m
                | Some file \<Rightarrow>
                    if Some fileId = activeFileId m
                    then (abortUpload fileId m)\<lparr>activeFileId := None\<rparr>
                    else m);
          m2 = m1\<lparr>files := filter (\<lambda>f. f_id f \<noteq> fileId) (files m1)\<rparr>;
          m3 = updateQueuePositions m2
      in if activeFileId m3 = None \<and> \<not> paused m3 then processQueue m3 else m3)"

definition pauseAll :: "manager \<Rightarrow> manager" where
  "pauseAll m =
     (let m1 = m\<lparr>paused := True\<rparr>
      in case activeFileId m1 of
           None \<Rightarrow> m1
         | Some fileId \<Rightarrow> updateFileStatus fileId Paused Undefined m1)"

definition resumeAll :: "manager \<Rightarrow> manager" where
  "resumeAll m =
     (let m1 = m\<lparr>paused := False\<rparr>;
          m2 = (case activeFileId m1 of
                  None \<Rightarrow> m1
                | Some fileId \<Rightarrow>
                    (case find (\<lambda>f. f_id f = fileId) (files m1) of
                       None \<Rightarrow> m1
                     | Some activeFile \<Rightarrow>
                         if f_status activeFile = Paused
                         then updateFileStatus fileId Pending Undefined m1
                         else m1))
      in processQueue m2)"

definition startUpload :: "manager \<Rightarrow> manager" where
  "startUpload m = processQueue (updateQueuePositions (m\<lparr>paused := False\<rparr>))"

text \<open>
  \<^verbatim>\<open>retryFailed\<close> walks a snapshot of the failed files and of their chunk lists.
\<close>

definition resetFailedChunks :: "manager \<Rightarrow> chunked_file \<Rightarrow> manager" where
  "resetFailedChunks m file =
     foldl (\<lambda>m' ci. if c_status (fst ci) = ChunkError
                     then updateChunkStatus (f_id file) (snd ci) ChunkPending m' else m')
       (updateFileStatus (f_id file) Pending Undefined m)
       (zip (f_chunks file) [0..<length (f_chunks file)])"

definition retryFailed :: "manager \<Rightarrow> manager" where
  "retryFailed m =
     (let failedFiles = filter (\<lambda>file. f_status file = FileError) (files m);
          m1 = foldl resetFailedChunks m failedFiles
      in processQueue (updateQueuePositions m1))"

definition cancelAll :: "manager \<Rightarrow> manager" where
  "cancelAll m =
     (let m1 = m\<lparr>aborted := map snd (abortControllers m) @ aborted m, abortControllers := []\<rparr>;
          m2 = foldl (\<lambda>m' file. if f_status file = Uploading \<or> f_status file = Paused
                                    \<or> f_status file = Queued
                                 then updateFileStatus (f_id file) Pending Undefined m' else m')
                 m1 (files m1);
          m3 = m2\<lparr>activeFileId := None\<rparr>
      in updateQueuePositions m3)"

definition clearCompleted :: "manager \<Rightarrow> manager" where
  "clearCompleted m =
     updateQueuePositions (m\<lparr>files := filter (\<lambda>file. f_status file \<noteq> FileCompleted) (files m)\<rparr>)"

section \<open>The upload manager: asynchronous steps\<close>

definition findTask :: "nat \<Rightarrow> manager \<Rightarrow> task option" where
  "findTask ctl m = find (\<lambda>t. t_ctl t = ctl) (tasks m)"

definition removeTask :: "nat \<Rightarrow> manager \<Rightarrow> manager" where
  "removeTask ctl m = m\<lparr>tasks := filter (\<lambda>t. t_ctl t \<noteq> ctl) (tasks m)\<rparr>"

definition updateTask :: "nat \<Rightarrow> (task \<Rightarrow> task) \<Rightarrow> manager \<Rightarrow> manager" where
  "updateTask ctl f m = m\<lparr>tasks := map (\<lambda>t. if t_ctl t = ctl then f t else t) (tasks m)\<rparr>"

text \<open>
  The three ways \<^verbatim>\<open>uploadFile\<close> ends after its first \<^verbatim>\<open>await\<close>: the error branch of its
  \<^verbatim>\<open>catch\<close>, the \<^verbatim>\<open>AbortError\<close> branch (which returns without touching the file), and
  success. \<^verbatim>\<open>processQueue\<close> then continues.
\<close>

definition uploadFailed :: "task \<Rightarrow> manager \<Rightarrow> manager" where
  "uploadFailed t m =
     (let m1 = updateFileStatus (t_file t) FileError MessageText m;
          m2 = m1\<lparr>abortControllers := filter (\<lambda>kc. fst kc \<noteq> t_file t) (abortControllers m1)\<rparr>
      in finishQueuePass (removeTask (t_ctl t) m2))"

definition uploadAborted :: "task \<Rightarrow> manager \<Rightarrow> manager" where
  "uploadAborted t m = finishQueuePass (removeTask (t_ctl t) m)"

definition uploadSucceeded :: "task \<Rightarrow> manager \<Rightarrow> manager" where
  "uploadSucceeded t m =
     (let m1 = updateFileStatus (t_file t) FileCompleted Undefined m;
          m2 = m1\<lparr>abortControllers := filter (\<lambda>kc. fst kc \<noteq> t_file t) (abortControllers m1)\<rparr>
      in finishQueuePass (removeTask (t_ctl t) m2))"

text \<open>\<^verbatim>\<open>uploadChunk\<close> up to its \<^verbatim>\<open>fetch\<close>, for a file that is found.\<close>

definition startChunkUpload :: "nat \<Rightarrow> jsstring \<Rightarrow> nat \<Rightarrow> manager \<Rightarrow> manager" where
  "startChunkUpload ctl fileId chunkIndex m =
     (let m1 = updateChunkStatus fileId chunkIndex ChunkUploading m
      in m1\<lparr>sendLog := sendLog m1 @ [(fileId, chunkIndex)],
            requests := requests m1 @ [\<lparr>r_task = ctl, r_file = fileId, r_index = chunkIndex\<rparr>]\<rparr>)"

text \<open>
  The inner loop of \<^verbatim>\<open>uploadChunks\<close>: chunks are taken from the queue while fewer than
  \<^verbatim>\<open>maxConcurrentChunks\<close> are active. \<^verbatim>\<open>activeChunks\<close> is a \<^verbatim>\<open>Set\<close>. The result is the
  remaining queue, the active set, the indices started and the manager. When the file is
  not found, \<^verbatim>\<open>uploadChunk\<close> throws and nothing is sent.
\<close>

fun fillChunks ::
  "nat \<Rightarrow> bool \<Rightarrow> nat \<Rightarrow> jsstring \<Rightarrow> chunk list \<Rightarrow> nat list \<Rightarrow> manager
     \<Rightarrow> chunk list \<times> nat list \<times> nat list \<times> manager" where
  "fillChunks maxActive found ctl fileId [] active m = ([], active, [], m)"
| "fillChunks maxActive found ctl fileId (chunk # queue) active m =
     (if length active < maxActive
      then
        let active' = (if c_index chunk \<in> set active then active else active @ [c_index chunk]);
            m' = (if found then startChunkUpload ctl fileId (c_index chunk) m else m)
        in case fillChunks maxActive found ctl fileId queue active' m' of
             (q, a, started, m'') \<Rightarrow> (q, a, c_index chunk # started, m'')
      else (chunk # queue, active, [], m))"

text \<open>
  One pass of the outer \<^verbatim>\<open>while\<close> loop of \<^verbatim>\<open>uploadChunks\<close>, from the loop condition to
  the 100 ms sleep. After the inner loop the queue is empty or the active set is full, so
  the pass always ends in the sleep. The rejections of \<^verbatim>\<open>uploadChunk\<close> for a file that is
  not found are handled when the loop suspends: the index leaves the active set and its
  result is the error, with no retry.
\<close>

definition loopIteration :: "options \<Rightarrow> nat \<Rightarrow> manager \<Rightarrow> manager" where
  "loopIteration opts ctl m =
     (case findTask ctl m of
        None \<Rightarrow> m
      | Some t \<Rightarrow>
          if chunkQueue t = [] \<and> activeChunks t = []
          then (if filter (\<lambda>r. r \<noteq> RTrue \<and> r \<noteq> RNull) (results t) \<noteq> []
                then uploadFailed t m
                else updateTask ctl (\<lambda>t. t\<lparr>t_phase := AwaitComplete\<rparr>) m)
          else if paused m \<or> ctl \<in> set (aborted m)
          then updateTask ctl (\<lambda>t. t\<lparr>t_phase := AwaitComplete\<rparr>) m
          else
            let found = (find (\<lambda>f. f_id f = t_file t) (files m) \<noteq> None)
            in case fillChunks (o_maxConcurrentChunks opts) found ctl (t_file t)
                      (chunkQueue t) (activeChunks t) m of
                 (q, a, started, m1) \<Rightarrow>
                   let t' = (if found then t\<lparr>chunkQueue := q, activeChunks := a\<rparr>
                             else t\<lparr>chunkQueue := q,
                                    activeChunks := filter (\<lambda>i. i \<notin> set started) a,
                                    results := foldl (\<lambda>r i. r[i := RError]) (results t) started\<rparr>)
                   in addTimer 100 (TLoopWake ctl) (updateTask ctl (\<lambda>_. t') m1))"

text \<open>
  The init response arrives. An aborted controller makes the pending \<^verbatim>\<open>fetch\<close> reject with
  \<^verbatim>\<open>AbortError\<close>. On success \<^verbatim>\<open>uploadChunks\<close> starts and runs its first loop pass.
\<close>

definition initResponse :: "options \<Rightarrow> nat \<Rightarrow> bool \<Rightarrow> manager \<Rightarrow> manager" where
  "initResponse opts ctl ok m =
     (case findTask ctl m of
        None \<Rightarrow> m
      | Some t \<Rightarrow>
          if t_phase t \<noteq> AwaitInit then m
          else if ctl \<in> set (aborted m) then uploadAborted t m
          else if \<not> ok then uploadFailed t m
          else
            case find (\<lambda>f. f_id f = t_file t) (files m) of
              None \<Rightarrow> updateTask ctl (\<lambda>t. t\<lparr>t_phase := AwaitComplete\<rparr>) m
            | Some file \<Rightarrow>
                let pendingChunks = filter (\<lambda>c. c_status c \<noteq> ChunkCompleted) (f_chunks file)
                in loopIteration opts ctl
                     (updateTask ctl (\<lambda>t. t\<lparr>t_phase := ChunkLoop, chunkQueue := pendingChunks,
                                             activeChunks := [],
                                             results := replicate (f_totalChunks file) RNull\<rparr>) m))"

text \<open>
  A chunk request settles. The transport can fail (network error or a response that is not
  ok), succeed, or answer ok with a body that \<^verbatim>\<open>response.json()\<close> rejects: then the chunk
  has already been marked completed and the progress updated when the \<^verbatim>\<open>catch\<close> marks it
  failed. The handlers given to \<^verbatim>\<open>then\<close> update the loop's local variables, if the loop
  still runs, and on failure arrange the retry.
\<close>

datatype chunk_outcome = ChunkOk | ChunkTransportFailure | ChunkBadBody

definition settleLocal :: "request \<Rightarrow> result \<Rightarrow> manager \<Rightarrow> manager" where
  "settleLocal r res m =
     updateTask (r_task r)
       (\<lambda>t. if t_phase t = ChunkLoop
             then t\<lparr>activeChunks := removeAll (r_index r) (activeChunks t),
                    results := (results t)[r_index r := res]\<rparr>
             else t) m"

definition chunkFailed :: "options \<Rightarrow> request \<Rightarrow> manager \<Rightarrow> manager" where
  "chunkFailed opts r m =
     (let m1 = settleLocal r RError m
      in case find (\<lambda>f. f_id f = r_file r) (files m1) of
           None \<Rightarrow> m1
         | Some updatedFile \<Rightarrow>
             if r_index r < length (f_chunks updatedFile)
             then
               let updatedChunk = f_chunks updatedFile ! r_index r in
               if c_retries updatedChunk < o_maxRetries opts
               then addTimer (o_retryDelay opts * (c_retries updatedChunk + 1))
                      (TRetry (r_task r) (updatedChunk\<lparr>c_retries := c_retries updatedChunk + 1\<rparr>))
                      (updateChunkRetries (r_file r) (r_index r) (c_retries updatedChunk + 1) m1)
               else m1
             else m1)"

definition chunkResponse :: "options \<Rightarrow> nat \<Rightarrow> chunk_outcome \<Rightarrow> manager \<Rightarrow> manager" where
  "chunkResponse opts k outcome m =
     (if length (requests m) \<le> k then m
      else
        let r = requests m ! k;
            m0 = m\<lparr>requests := take k (requests m) @ drop (Suc k) (requests m)\<rparr>;
            completed = (\<lambda>m. updateFileProgress (r_file r)
                               (updateChunkStatus (r_file r) (r_index r) ChunkCompleted m));
            failed = (\<lambda>m. chunkFailed opts r (updateChunkStatus (r_file r) (r_index r) ChunkError m))
        in case outcome of
             ChunkOk \<Rightarrow> settleLocal r RTrue (completed m0)
           | ChunkTransportFailure \<Rightarrow> failed m0
           | ChunkBadBody \<Rightarrow> failed (completed m0))"

text \<open>
  The completion response arrives: the server's answer, or \<open>None\<close> for a network failure.
\<close>

definition completeResponse :: "nat \<Rightarrow> complete_response option \<Rightarrow> manager \<Rightarrow> manager" where
  "completeResponse ctl resp m =
     (case findTask ctl m of
        None \<Rightarrow> m
      | Some t \<Rightarrow>
          if t_phase t \<noteq> AwaitComplete then m
          else if ctl \<in> set (aborted m) then uploadAborted t m
          else
            case resp of
              None \<Rightarrow> uploadFailed t m
            | Some r \<Rightarrow> if complete_ok r then uploadSucceeded t m else uploadFailed t m)"

text \<open>
  Timers fire in the order of their deadlines, the earlier \<^verbatim>\<open>setTimeout\<close> first among
  equal deadlines; the clock does not pass a pending deadline.
\<close>

fun earliest :: "(nat \<times> 'a) list \<Rightarrow> ((nat \<times> 'a) \<times> (nat \<times> 'a) list) option" where
  "earliest [] = None"
| "earliest (x # xs) =
     (case earliest xs of
        None \<Rightarrow> Some (x, [])
      | Some (y, rest) \<Rightarrow> if fst x \<le> fst y then Some (x, xs) else Some (y, x # rest))"

definition fireTimer :: "options \<Rightarrow> manager \<Rightarrow> manager" where
  "fireTimer opts m =
     (case earliest (timers m) of
        None \<Rightarrow> m
      | Some ((deadline, t), rest) \<Rightarrow>
          let m0 = m\<lparr>timers := rest, clock := max (clock m) deadline\<rparr>
          in case t of
               TProcessQueue \<Rightarrow> processQueue m0
             | TLoopWake ctl \<Rightarrow>
                 (case findTask ctl m0 of
                    None \<Rightarrow> m0
                  | Some t \<Rightarrow> if t_phase t = ChunkLoop then loopIteration opts ctl m0 else m0)
             | TRetry ctl chunk \<Rightarrow>
                 if \<not> paused m0 \<and> ctl \<notin> set (aborted m0)
                 then updateTask ctl (\<lambda>t. if t_phase t = ChunkLoop
                                           then t\<lparr>chunkQueue := chunkQueue t @ [chunk]\<rparr> else t) m0
                 else m0)"

definition elapse :: "nat \<Rightarrow> manager \<Rightarrow> manager" where
  "elapse d m =
     (case earliest (timers m) of
        None \<Rightarrow> m\<lparr>clock := clock m + d\<rparr>
      | Some ((deadline, t), rest) \<Rightarrow> m\<lparr>clock := max (clock m) (min (clock m + d) deadline)\<rparr>)"

text \<open>
  The events: calls of the public operations by the user interface, responses of the
  network, timers and the passing of time. Each is one uninterrupted run of JavaScript.
\<close>

datatype event =
    AddFiles "(jsstring \<times> nat) list"
  | RemoveFile jsstring
  | StartUpload
  | PauseAll
  | ResumeAll
  | RetryFailed
  | CancelAll
  | ClearCompleted
  | InitResponse nat bool
  | ChunkResponse nat chunk_outcome
  | CompleteResponse nat "complete_response option"
  | FireTimer
  | Elapse nat

fun step :: "options \<Rightarrow> manager \<Rightarrow> event \<Rightarrow> manager" where
  "step opts m (AddFiles newFiles) = addFiles opts newFiles m"
| "step opts m (RemoveFile fileId) = removeFile fileId m"
| "step opts m StartUpload = startUpload m"
| "step opts m PauseAll = pauseAll m"
| "step opts m ResumeAll = resumeAll m"
| "step opts m RetryFailed = retryFailed m"
| "step opts m CancelAll = cancelAll m"
| "step opts m ClearCompleted = clearCompleted m"
| "step opts m (InitResponse ctl ok) = initResponse opts ctl ok m"
| "step opts m (ChunkResponse k outcome) = chunkResponse opts k outcome m"
| "step opts m (CompleteResponse ctl resp) = completeResponse ctl resp m"
| "step opts m FireTimer = fireTimer opts m"
| "step opts m (Elapse d) = elapse d m"

definition run :: "options \<Rightarrow> event list \<Rightarrow> manager \<Rightarrow> manager" where
  "run opts events m = foldl (step opts) m events"

section \<open>Auxiliary notions for the proofs\<close>

text \<open>The groups built so far are exactly the classes of the objects seen so far.\<close>

definition grp_ok :: "(jsstring \<times> blob list) list \<Rightarrow> blob list \<Rightarrow> bool" where
  "grp_ok G xs \<longleftrightarrow>
     distinct (map fst G) \<and>
     (\<forall>(k, g) \<in> set G. g = filter (\<lambda>b. uploadIdOf (pathname b) = Some k) xs \<and> g \<noteq> [])
     \<and> fst ` set G = {k. \<exists>b \<in> set xs. uploadIdOf (pathname b) = Some k}"

text \<open>A group is old when its oldest object is older than the threshold.\<close>

definition groupOld :: "int \<Rightarrow> blob list \<Rightarrow> bool" where
  "groupOld now g \<longleftrightarrow> now - Min (uploadedAt ` set g) > ORPHAN_THRESHOLD"





text \<open>
  The files that \<^verbatim>\<open>updateQueuePositions\<close> puts into the queue, the position of a file id
  in such a list, and a file as the queue recomputation leaves it.
\<close>

definition waitingFiles :: "manager \<Rightarrow> chunked_file list" where
  "waitingFiles m =
     filter (\<lambda>file. Some (f_id file) \<noteq> activeFileId m)
       (filter (\<lambda>file. f_status file \<noteq> FileCompleted \<and> f_status file \<noteq> FileError
                       \<and> f_status file \<noteq> Uploading) (files m))"

fun posIn :: "jsstring \<Rightarrow> chunked_file list \<Rightarrow> nat \<Rightarrow> nat option" where
  "posIn fid [] off = None"
| "posIn fid (f # q) off = (if f_id f = fid then Some off else posIn fid q (Suc off))"

definition queuedAs :: "chunked_file list \<Rightarrow> nat \<Rightarrow> chunked_file \<Rightarrow> chunked_file" where
  "queuedAs q off f =
     (case posIn (f_id f) q off of
        None \<Rightarrow> f
      | Some k \<Rightarrow> f\<lparr>f_status := Queued, f_queuePosition := Position k\<rparr>)"

text \<open>
  The invariant of the manager. File ids are distinct and were handed out by \<^verbatim>\<open>addFiles\<close>;
  \<^verbatim>\<open>uploadedChunks\<close> of every file is the number of its completed chunks; there is at most
  one running task (one call of \<^verbatim>\<open>uploadFile\<close> in progress), and only while
  \<^verbatim>\<open>processingQueue\<close> is set; controller handles are fresh; and a file that is
  \<open>uploading\<close> belongs to the running task, whose controller has not been aborted.
\<close>

definition counted :: "chunked_file \<Rightarrow> bool" where
  "counted f \<longleftrightarrow>
     f_uploadedChunks f = length (filter (\<lambda>c. c_status c = ChunkCompleted) (f_chunks f))"

definition uploading_ok :: "manager \<Rightarrow> bool" where
  "uploading_ok m \<longleftrightarrow>
     (\<forall>f \<in> set (files m). f_status f = Uploading \<longrightarrow>
        (\<exists>t \<in> set (tasks m). t_file t = f_id f \<and> t_ctl t \<notin> set (aborted m)))"

definition controllers_ok :: "manager \<Rightarrow> bool" where
  "controllers_ok m \<longleftrightarrow>
     (\<forall>t \<in> set (tasks m). t_ctl t < nextCtl m) \<and>
     (\<forall>kc \<in> set (abortControllers m).
        snd kc < nextCtl m \<and> (\<forall>t \<in> set (tasks m). t_ctl t = snd kc \<longrightarrow> t_file t = fst kc)) \<and>
     (\<forall>c \<in> set (aborted m). c < nextCtl m)"

definition base_inv :: "manager \<Rightarrow> bool" where
  "base_inv m \<longleftrightarrow>
     distinct (map f_id (files m)) \<and>
     f_id ` set (files m) \<subseteq> set (seenIds m) \<and>
     (\<forall>f \<in> set (files m). counted f) \<and>
     length (tasks m) \<le> 1 \<and>
     (tasks m \<noteq> [] \<longrightarrow> processingQueue m) \<and>
     controllers_ok m"

definition mgr_inv :: "manager \<Rightarrow> bool" where
  "mgr_inv m \<longleftrightarrow> base_inv m \<and> uploading_ok m"

text \<open>
  A change of the file list that keeps the ids apart, makes no file \<open>uploading\<close> and keeps
  the chunk counts right; and a step of the manager that changes the file list in this way
  and leaves the running tasks, the controllers and the \<^verbatim>\<open>processingQueue\<close> flag as they
  are.
\<close>

definition files_ok :: "chunked_file list \<Rightarrow> chunked_file list \<Rightarrow> bool" where
  "files_ok fs fs' \<longleftrightarrow>
     (distinct (map f_id fs) \<longrightarrow> distinct (map f_id fs')) \<and>
     (\<forall>f' \<in> set fs'. \<exists>f \<in> set fs. f_id f = f_id f' \<and>
                        (f_status f' = Uploading \<longrightarrow> f_status f = Uploading)) \<and>
     (distinct (map f_id fs) \<and> (\<forall>f \<in> set fs. counted f) \<longrightarrow> (\<forall>f' \<in> set fs'. counted f'))"

definition quiet :: "manager \<Rightarrow> manager \<Rightarrow> bool" where
  "quiet m m' \<longleftrightarrow>
     map (\<lambda>t. (t_file t, t_ctl t)) (tasks m') = map (\<lambda>t. (t_file t, t_ctl t)) (tasks m) \<and>
     processingQueue m' = processingQueue m \<and>
     abortControllers m' = abortControllers m \<and>
     aborted m' = aborted m \<and>
     nextCtl m' = nextCtl m \<and>
     seenIds m' = seenIds m \<and>
     files_ok (files m) (files m')"

section \<open>Concrete scenarios\<close>

text \<open>
  Two uploads in the chunk store, at time 30 h: upload \<open>a\<close> with chunks stored at 0 h and
  1 h, upload \<open>b\<close> with one chunk stored at 28 h.
\<close>

definition scenarioD :: server where
  "scenarioD =
     \<lparr>blobs = [\<lparr>pathname = js ''uploads/a/chunk-0.bin'', uploadedAt = 0, content = [1]\<rparr>,
               \<lparr>pathname = js ''uploads/b/chunk-0.bin'', uploadedAt = 100800000, content = [2]\<rparr>,
               \<lparr>pathname = js ''uploads/a/chunk-1.bin'', uploadedAt = 3600000, content = [3]\<rparr>],
      media = []\<rparr>"

text \<open>
  A five-byte file split with chunk size 2 (three chunks), an upload id of the form the
  manager generates, an empty server, and a storage backend that accepts every item.
\<close>

definition exampleFile :: "byte list" where
  "exampleFile = [10, 20, 30, 40, 50]"

definition exampleId :: jsstring where
  "exampleId = js ''1700000000000-k3j9x2a''"

definition emptyServer :: server where
  "emptyServer = \<lparr>blobs = [], media = []\<rparr>"


text \<open>The default options with a chunk size of two bytes, to keep the examples small.\<close>

definition testOptions :: options where
  "testOptions = \<lparr>o_chunkSize = 2, o_maxRetries = 3, o_retryDelay = 2000, o_maxConcurrentChunks = 3\<rparr>"

text \<open>
  Two file ids of the form the manager generates, and what the examples show of a managed
  file: its status, \<^verbatim>\<open>uploadedChunks\<close>, \<^verbatim>\<open>progress\<close>, and the status and retry count of
  each chunk.
\<close>

definition fileA :: jsstring where
  "fileA = js ''1700000000000-aaaaaaa''"

definition fileB :: jsstring where
  "fileB = js ''1700000000001-bbbbbbb''"

definition fileView :: "chunked_file \<Rightarrow> file_status \<times> nat \<times> nat option \<times> (chunk_status \<times> nat) list" where
  "fileView f = (f_status f, f_uploadedChunks f, f_progress f,
                 map (\<lambda>c. (c_status c, c_retries c)) (f_chunks f))"

text \<open>
  Scenario B with a file of one chunk: the file is added, the queue starts it, the init
  request succeeds and the first send of chunk 0 fails in transport.
\<close>

definition scenarioB :: "event list" where
  "scenarioB = [AddFiles [(fileA, 1)], FireTimer, InitResponse 0 True,
                ChunkResponse 0 ChunkTransportFailure]"

text \<open>
  Two files of one chunk each. File A is paused while its chunk request is in flight; its
  loop returns at the next wake-up, the completion request is answered with the count
  mismatch and file A fails. After \<^verbatim>\<open>resumeAll\<close> file B starts and sends its chunk.
\<close>

definition scenarioPause :: "event list" where
  "scenarioPause = [AddFiles [(fileA, 1), (fileB, 1)], FireTimer, InitResponse 0 True, PauseAll,
                    FireTimer, CompleteResponse 0 (Some (NotAllChunks 0 1)), ResumeAll,
                    InitResponse 1 True]"

text \<open>
  A file of one chunk is cancelled while its chunk request is in flight and is taken up by
  the queue again: the chunk, still \<open>uploading\<close>, is sent a second time. The first request
  then succeeds and the second fails in transport.
\<close>

definition scenarioCancel :: "event list" where
  "scenarioCancel = [AddFiles [(fileA, 1)], FireTimer, InitResponse 0 True, CancelAll, FireTimer,
                     FireTimer, CompleteResponse 0 None, FireTimer, InitResponse 1 True,
                     ChunkResponse 0 ChunkOk, ChunkResponse 0 ChunkTransportFailure]"

text \<open>
  Scenario C on the client: a file of three chunks whose three sends are all answered ok,
  up to the point where the completion request is awaited; and on the server: only two of
  the three chunks are stored.
\<close>

definition scenarioC :: "event list" where
  "scenarioC = [AddFiles [(exampleId, 5)], FireTimer, InitResponse 0 True, ChunkResponse 0 ChunkOk,
                ChunkResponse 0 ChunkOk, ChunkResponse 0 ChunkOk, FireTimer]"

definition twoOfThree :: server where
  "twoOfThree = sendChunks exampleFile 2 exampleId 3 emptyServer [(0, 10), (2, 11)]"

definition exampleRequest :: complete_request where
  "exampleRequest = \<lparr>q_uploadId = exampleId, q_filename = js ''a.png'',
                      q_contentType = js ''image/png'', q_totalChunks = 3\<rparr>"

section \<open>Filename sanitising on completion\<close>

lemma sanitizeFilename_length: "length (sanitizeFilename f) = length f"
  by (simp add: sanitizeFilename_def)

lemma sanitizeFilename_fix: "sanitizeFilename f = f \<longleftrightarrow> (\<forall>c \<in> set f. allowedChar c)"
proof (induction f)
  case Nil
  show ?case by (simp add: sanitizeFilename_def)
next
  case (Cons c f)
  have "\<not> allowedChar c \<Longrightarrow> c \<noteq> 0x5F"
    by (auto simp: allowedChar_def isWordChar_def)
  with Cons show ?case
    by (auto simp: sanitizeFilename_def)
qed

text \<open>
  C10: when completion succeeds, the filename handed to the storage backend and the
  filename of the response are both the requested filename with every code unit outside
  word characters, white space, dot and hyphen replaced by an underscore; a filename with
  such a code unit is therefore changed.
\<close>

theorem complete_filename_sanitized:
  assumes "complete_POST engineOrder backend delFails req sv = (Completed mediaItemId fname n, sv')"
  shows "fname = map (\<lambda>c. if isWordChar c \<or> isWhiteSpace c \<or> c = 0x2E \<or> c = 0x2D then c else 0x5F)
                   (q_filename req)
         \<and> (\<exists>item. media sv' = media sv @ [item] \<and> m_filename item = fname)
         \<and> ((\<exists>c \<in> set (q_filename req).
                \<not> (isWordChar c \<or> isWhiteSpace c \<or> c = 0x2E \<or> c = 0x2D))
              \<longrightarrow> fname \<noteq> q_filename req)"
proof -
  from assms have f: "fname = sanitizeFilename (q_filename req)"
    and m: "\<exists>item. media sv' = media sv @ [item] \<and> m_filename item = fname"
    by (auto simp: complete_POST_def Let_def split: if_splits option.splits)
  from f have "fname = map (\<lambda>c. if isWordChar c \<or> isWhiteSpace c \<or> c = 0x2E \<or> c = 0x2D then c else 0x5F)
                   (q_filename req)"
    by (simp add: sanitizeFilename_def allowedChar_def)
  moreover have "(\<exists>c \<in> set (q_filename req).
                \<not> (isWordChar c \<or> isWhiteSpace c \<or> c = 0x2E \<or> c = 0x2D))
              \<longrightarrow> fname \<noteq> q_filename req"
    using sanitizeFilename_fix [of "q_filename req"] f
    by (auto simp: allowedChar_def)
  ultimately show ?thesis using m by blast
qed

theorem complete_filename_sanitized_witness:
  "complete_POST rev (\<lambda>_. Some (js ''m1'')) (\<lambda>_. False)
   \<lparr>q_uploadId = js ''u1'', q_filename = js ''a#1.png'', q_contentType = js ''image/png'', q_totalChunks = 1\<rparr>
   \<lparr>blobs = [\<lparr>pathname = js ''uploads/u1/chunk-0.bin'', uploadedAt = 5, content = [1,2,3]\<rparr>], media = []\<rparr>
  = (Completed (js ''m1'') (js ''a_1.png'') 1,
     \<lparr>blobs = [], media = [\<lparr>m_bytes = [1,2,3], m_filename = js ''a_1.png'', m_mimeType = js ''image/png''\<rparr>]\<rparr>)
  \<and> js ''a_1.png'' \<noteq> js ''a#1.png''"
proof -
  have e: "complete_POST rev (\<lambda>_. Some (js ''m1'')) (\<lambda>_. False)
   \<lparr>q_uploadId = js ''u1'', q_filename = js ''a#1.png'', q_contentType = js ''image/png'', q_totalChunks = 1\<rparr>
   \<lparr>blobs = [\<lparr>pathname = js ''uploads/u1/chunk-0.bin'', uploadedAt = 5, content = [1,2,3]\<rparr>], media = []\<rparr>
  = (Completed (js ''m1'') (js ''a_1.png'') 1,
     \<lparr>blobs = [], media = [\<lparr>m_bytes = [1,2,3], m_filename = js ''a_1.png'', m_mimeType = js ''image/png''\<rparr>]\<rparr>)"
    by code_simp
  have h: "\<exists>c \<in> set (js ''a#1.png''). \<not> (isWordChar c \<or> isWhiteSpace c \<or> c = 0x2E \<or> c = 0x2D)"
    by code_simp
  note t = complete_filename_sanitized [OF e, THEN conjunct2, THEN conjunct2]
  from t h have "js ''a_1.png'' \<noteq> js ''a#1.png''" by simp
  with e show ?thesis by blast
qed

section \<open>Strings, splitting and decimal numbers\<close>


lemma split_from_single:
  "c \<notin> set xs \<Longrightarrow> split_from [c] acc (xs @ c # ys) = (rev acc @ xs) # split_from [c] [] ys"
  by (induction xs arbitrary: acc) auto

lemma split_from_single_notin:
  "c \<notin> set xs \<Longrightarrow> split_from [c] acc xs = [rev acc @ xs]"
  by (induction xs arbitrary: acc) auto

lemma js_slash: "js ''/'' = [0x2F]"
  by (simp add: js_def)

lemma js_append: "js (a @ b) = js a @ js b"
  by (simp add: js_def)

lemma js_uploads_slash: "js ''uploads/'' = js ''uploads'' @ [0x2F]"
  by (simp add: js_def)

lemma slash_notin_uploads: "(0x2F :: jschar) \<notin> set (js ''uploads'')"
  by (simp add: js_def)

lemma len_uploads: "length (js ''uploads'') = 7"
  by (simp add: js_def)

lemma a1: assumes "prefix (js ''uploads/'') p"
  shows "\<exists>r. p = js ''uploads'' @ 0x2F # r"
  using assms unfolding js_uploads_slash prefix_def by auto


lemma uploadIdOf_uploads:
  assumes "prefix (js ''uploads/'') p"
  shows "uploadIdOf p = Some (takeWhile (\<lambda>c. c \<noteq> 0x2F) (drop 8 p))"
proof -
  from a1 [OF assms] obtain r where p: "p = js ''uploads'' @ 0x2F # r" by blast
  have s1: "split_js (js ''/'') p = js ''uploads'' # split_from [0x2F] [] r"
    unfolding split_js_def js_slash p using split_from_single [OF slash_notin_uploads, of "[]" r] by simp
  have d: "drop 8 p = r" by (simp add: p len_uploads)
  define t where "t = takeWhile (\<lambda>c. c \<noteq> 0x2F) r"
  have nt: "0x2F \<notin> set t"
    unfolding t_def by (auto dest: set_takeWhileD)
  have "\<exists>rest. split_from [0x2F] [] r = t # rest"
  proof (cases "dropWhile (\<lambda>c. c \<noteq> 0x2F) r")
    case Nil
    then have "0x2F \<notin> set r" by (auto simp: dropWhile_eq_Nil_conv)
    then have "split_from [0x2F] [] r = [r]" "t = r"
      unfolding t_def
      using split_from_single_notin [of "0x2F" r "[]"] by (auto simp: takeWhile_eq_all_conv)
    then show ?thesis by simp
  next
    case (Cons c ys)
    then have c: "c = 0x2F" using hd_dropWhile [of "\<lambda>c. c \<noteq> 0x2F" r] by auto
    have "t @ dropWhile (\<lambda>c. c \<noteq> 0x2F) r = r" unfolding t_def by (rule takeWhile_dropWhile_id)
    then have r: "r = t @ 0x2F # ys" unfolding Cons c by simp
    show ?thesis unfolding r
      using split_from_single [OF nt, of "[]" ys] by simp
  qed
  then obtain rest where "split_from [0x2F] [] r = t # rest" by blast
  then have "uploadIdOf p = Some t" by (simp add: uploadIdOf_def s1)
  then show ?thesis unfolding d t_def .
qed


lemma lt10: "(d::nat) < 10 \<Longrightarrow> d = 0 \<or> d = 1 \<or> d = 2 \<or> d = 3 \<or> d = 4 \<or> d = 5 \<or> d = 6 \<or> d = 7 \<or> d = 8 \<or> d = 9"
  by arith

lemma isDigit_digit: assumes "d < 10" shows "isDigit (of_nat (48 + d))"
  using lt10 [OF assms] unfolding isDigit_def by (elim disjE) simp_all

lemma digitVal_digit: assumes "d < 10" shows "digitVal (of_nat (48 + d)) = int d"
  using lt10 [OF assms] unfolding digitVal_def by (elim disjE) simp_all

lemma not_ws_digit: "isDigit c \<Longrightarrow> \<not> isWhiteSpace c"
  unfolding isDigit_def isWhiteSpace_def word_le_nat_alt
  by auto

lemma showNat_digits: "\<forall>c \<in> set (showNat n). isDigit c"
proof (induction n rule: showNat.induct)
  case (1 n)
  show ?case
  proof (cases "n < 10")
    case True
    then show ?thesis by (subst showNat.simps) (simp add: isDigit_digit del: of_nat_add)
  next
    case False
    with 1 show ?thesis by (subst showNat.simps) (simp add: isDigit_digit del: of_nat_add)
  qed
qed

lemma showNat_nonempty: "showNat n \<noteq> []"
  by (subst showNat.simps) simp

lemma digitsVal_append: "digitsVal (xs @ [d]) = 10 * digitsVal xs + digitVal d"
  by (simp add: digitsVal_def)

lemma int_div_mod10: "10 * int (n div 10) + int (n mod 10) = int n"
  by (simp add: zdiv_int zmod_int)

lemma digitsVal_showNat: "digitsVal (showNat n) = int n"
proof (induction n rule: showNat.induct)
  case (1 n)
  show ?case
  proof (cases "n < 10")
    case True
    then show ?thesis by (subst showNat.simps) (simp add: digitsVal_def digitVal_digit del: of_nat_add)
  next
    case False
    with 1 have "digitsVal (showNat (n div 10)) = int (n div 10)" by simp
    with False show ?thesis
      by (subst showNat.simps) (simp add: digitsVal_append digitVal_digit int_div_mod10 del: of_nat_add)
  qed
qed


lemma parseDigits_showNat:
  assumes "rest = [] \<or> \<not> isDigit (hd rest)"
  shows "parseDigits (showNat n @ rest) = Some (int n)"
proof -
  have "takeWhile isDigit (showNat n @ rest) = showNat n"
    using assms showNat_digits [of n]
    by (cases rest) (auto simp: takeWhile_append2 takeWhile_eq_all_conv)
  then show ?thesis
    by (simp add: parseDigits_def showNat_nonempty digitsVal_showNat)
qed

lemma parseInt_showNat:
  assumes "rest = [] \<or> \<not> isDigit (hd rest)"
  shows "parseInt (showNat n @ rest) = Some (int n)"
proof -
  obtain c cs where s: "showNat n = c # cs" using showNat_nonempty [of n] by (cases "showNat n") auto
  with showNat_digits [of n] have d: "isDigit c" by auto
  then have nw: "\<not> isWhiteSpace c" by (rule not_ws_digit)
  from d have ns: "c \<noteq> 0x2D" "c \<noteq> 0x2B" by (auto simp: isDigit_def)
  have "dropWhile isWhiteSpace (showNat n @ rest) = c # cs @ rest"
    using nw by (simp add: s)
  then have "parseInt (showNat n @ rest) = parseDigits (c # cs @ rest)"
    using ns by (simp add: parseInt_def)
  also have "\<dots> = parseDigits (showNat n @ rest)" by (simp add: s)
  finally show ?thesis using parseDigits_showNat [OF assms] by simp
qed



lemma split_from_none:
  assumes "sep \<noteq> []" and "\<forall>i < length xs. \<not> prefix sep (drop i xs)"
  shows "split_from sep acc xs = [rev acc @ xs]"
  using assms(2)
proof (induction xs arbitrary: acc)
  case Nil
  show ?case by simp
next
  case (Cons c xs)
  from Cons.prems have n0: "\<not> prefix sep (c # xs)" by force
  from Cons.prems have "\<forall>i < length xs. \<not> prefix sep (drop i xs)" by force
  from Cons.IH [OF this, of "c # acc"] n0 show ?case by simp
qed

lemma split_from_first:
  assumes "sep \<noteq> []" and "\<forall>i < length xs. \<not> prefix sep (drop i (xs @ sep @ rest))"
  shows "split_from sep acc (xs @ sep @ rest) = (rev acc @ xs) # split_from sep [] rest"
  using assms(2)
proof (induction xs arbitrary: acc)
  case Nil
  from assms(1) obtain s sep' where sep: "sep = s # sep'" by (cases sep) auto
  have "split_from sep acc (sep @ rest) = rev acc # split_from sep [] (drop (length sep) (sep @ rest))"
    unfolding sep by simp
  then show ?case by simp
next
  case (Cons c xs)
  from Cons.prems have n0: "\<not> prefix sep (c # xs @ sep @ rest)" by force
  from Cons.prems have "\<forall>i < length xs. \<not> prefix sep (drop i (xs @ sep @ rest))" by force
  from Cons.IH [OF this, of "c # acc"] n0 show ?case by simp
qed

lemma prefix_hits:
  assumes "prefix sep (w @ c # r)" and "length w < length sep"
  shows "c \<in> set sep"
proof -
  from assms(1) obtain z where z: "w @ c # r = sep @ z" by (auto simp: prefix_def)
  have "(w @ c # r) ! length w = c" by simp
  with z have "(sep @ z) ! length w = c" by simp
  with assms(2) have "sep ! length w = c" by (simp add: nth_append)
  with assms(2) show ?thesis by (metis nth_mem)
qed

lemma prefix_inside:
  assumes "prefix sep (w @ r)" and "length sep \<le> length w"
  shows "prefix sep w"
  using assms by (metis prefix_append prefix_length_prefix prefix_order.order_refl prefixI)

lemma no_prefix_head:
  assumes "sep \<noteq> []" and "hd sep \<notin> set A" and "i < length A"
  shows "\<not> prefix sep (drop i (A @ B))"
proof
  assume p: "prefix sep (drop i (A @ B))"
  from assms(3) obtain x xs where d: "drop i A = x # xs" by (cases "drop i A") auto
  then have "x \<in> set A" by (metis in_set_dropD list.set_intros(1))
  from p d have "prefix sep (x # xs @ B)" using assms(3) by simp
  with assms(1) have "hd sep = x" by (cases sep) auto
  with \<open>x \<in> set A\<close> assms(2) show False by simp
qed


lemma js_chunk_facts:
  "js ''chunk-'' \<noteq> []" "hd (js ''chunk-'') = 0x63" "0x2F \<notin> set (js ''chunk-'')"
  "length (js ''chunk-'') = 6" "js ''/chunk-'' = 0x2F # js ''chunk-''"
  "0x63 \<notin> set (js ''uploads/'')" "js ''.bin'' = 0x2E # js ''bin''" "0x63 \<notin> set (js ''.bin'')"
  "js ''.'' = [0x2E]" "0x63 \<notin> set (js ''bin'')"
  by (simp_all add: js_def)

lemma digit_not_c: "isDigit c \<Longrightarrow> c \<noteq> 0x63 \<and> c \<noteq> 0x2E"
  by (auto simp: isDigit_def)

lemma numToString_nat: "numToString (int n) = showNat n"
  by (simp add: numToString_def)

lemma chunkPath_split:
  assumes "\<not> sublist (js ''chunk-'') uid"
  shows "split_js (js ''chunk-'') (chunkPath uid (int n)) =
         [js ''uploads/'' @ uid @ [0x2F], showNat n @ js ''.bin'']"
proof -
  let ?sep = "js ''chunk-''"
  let ?A = "js ''uploads/''"
  let ?U = "?A @ uid @ [0x2F]"
  let ?D = "showNat n @ js ''.bin''"
  have p: "chunkPath uid (int n) = ?U @ ?sep @ ?D"
    by (simp add: chunkPath_def numToString_nat js_chunk_facts)
  have noU: "\<forall>i < length ?U. \<not> prefix ?sep (drop i (?U @ ?sep @ ?D))"
  proof (intro allI impI)
    fix i assume i: "i < length ?U"
    show "\<not> prefix ?sep (drop i (?U @ ?sep @ ?D))"
    proof (cases "i < length ?A")
      case True
      have "\<not> prefix ?sep (drop i (?A @ (uid @ [0x2F] @ ?sep @ ?D)))"
        by (rule no_prefix_head [OF _ _ True]) (simp_all add: js_chunk_facts)
      then show ?thesis by simp
    next
      case False
      define j where "j = i - length ?A"
      from False i have j: "j \<le> length uid" by (simp add: j_def)
      have d: "drop i (?U @ ?sep @ ?D) = drop j uid @ 0x2F # ?sep @ ?D"
        using False j by (simp add: j_def)
      show ?thesis
      proof
        assume "prefix ?sep (drop i (?U @ ?sep @ ?D))"
        then have pr: "prefix ?sep (drop j uid @ 0x2F # ?sep @ ?D)" unfolding d .
        show False
        proof (cases "length (drop j uid) < length ?sep")
          case True
          from prefix_hits [OF pr True] show False by (simp add: js_chunk_facts)
        next
          case False
          then have "prefix ?sep (drop j uid)"
            using prefix_inside [OF pr] by simp
          then obtain z where "drop j uid = ?sep @ z" by (auto simp: prefix_def)
          moreover have "take j uid @ drop j uid = uid" by simp
          ultimately have "uid = take j uid @ ?sep @ z" by simp
          then have "sublist ?sep uid" unfolding sublist_def by blast
          with assms show False by simp
        qed
      qed
    qed
  qed
  have noD: "\<forall>i < length ?D. \<not> prefix ?sep (drop i ?D)"
  proof (intro allI impI)
    fix i assume i: "i < length ?D"
    have "hd ?sep \<notin> set ?D"
      using showNat_digits [of n] digit_not_c by (auto simp: js_chunk_facts)
    from no_prefix_head [OF _ this i, of "[]"] show "\<not> prefix ?sep (drop i ?D)"
      by (simp add: js_chunk_facts)
  qed
  have "split_from ?sep [] (?U @ ?sep @ ?D) = ?U # split_from ?sep [] ?D"
    using split_from_first [OF _ noU, of "[]"] by (simp add: js_chunk_facts)
  also have "split_from ?sep [] ?D = [?D]"
    using split_from_none [OF _ noD, of "[]"] by (simp add: js_chunk_facts)
  finally show ?thesis unfolding p split_js_def by (simp add: js_chunk_facts)
qed

lemma chunkIndexOf_chunkPath:
  assumes "\<not> sublist (js ''chunk-'') uid"
  shows "chunkIndexOf (chunkPath uid (int n)) = Some (Some (int n))"
proof -
  have nd: "0x2E \<notin> set (showNat n)"
    using showNat_digits [of n] digit_not_c by auto
  have "split_js (js ''.'') (showNat n @ js ''.bin'') = showNat n # split_from [0x2E] [] (js ''bin'')"
    unfolding split_js_def js_chunk_facts
    using split_from_single [OF nd, of "[]" "js ''bin''"] by simp
  then show ?thesis
    unfolding chunkIndexOf_def chunkPath_split [OF assms]
    using parseInt_showNat [of "[]" n] by simp
qed

lemma chunkPath_inj:
  assumes "\<not> sublist (js ''chunk-'') uid" and "chunkPath uid (int i) = chunkPath uid (int j)"
  shows "i = j"
proof -
  from assms(2) have "chunkIndexOf (chunkPath uid (int i)) = chunkIndexOf (chunkPath uid (int j))"
    by (rule arg_cong)
  then show ?thesis unfolding chunkIndexOf_chunkPath [OF assms(1)] by simp
qed


section \<open>The orphan sweep\<close>

lemma del_blob_filter: "del_blob p st = filter (\<lambda>b. pathname b \<noteq> p) st"
  by (simp add: del_blob_def)

lemma deleteAll_filter:
  "deleteAll f bs st = filter (\<lambda>b. \<not> (pathname b \<in> pathname ` set bs \<and> \<not> f (pathname b))) st"
proof (induction bs arbitrary: st)
  case Nil
  show ?case by (simp add: deleteAll_def)
next
  case (Cons a bs)
  have "deleteAll f (a # bs) st = deleteAll f bs (if f (pathname a) then st else del_blob (pathname a) st)"
    by (simp add: deleteAll_def)
  also have "\<dots> = filter (\<lambda>b. \<not> (pathname b \<in> pathname ` set (a # bs) \<and> \<not> f (pathname b))) st"
    unfolding Cons.IH by (auto simp: del_blob_def intro!: filter_cong)
  finally show ?case .
qed

lemma grp_ok_add: 
  assumes "grp_ok G xs"
  shows "grp_ok (addToGroup G b) (xs @ [b])"
proof (cases "uploadIdOf (pathname b)")
  case None
  with assms show ?thesis
    by (auto simp: grp_ok_def addToGroup_def)
next
  case (Some k)
  from assms have d: "distinct (map fst G)"
    and g: "\<And>k' g. (k', g) \<in> set G \<Longrightarrow> g = filter (\<lambda>b. uploadIdOf (pathname b) = Some k') xs \<and> g \<noteq> []"
    and f: "fst ` set G = {k. \<exists>b \<in> set xs. uploadIdOf (pathname b) = Some k}"
    by (auto simp: grp_ok_def)
  show ?thesis
  proof (cases "k \<in> fst ` set G")
    case True
    let ?u = "\<lambda>(k', bs). if k' = k then (k', bs @ [b]) else (k', bs)"
    have a: "addToGroup G b = map ?u G"
      using True Some by (simp add: addToGroup_def)
    have m: "map fst (map ?u G) = map fst G"
      by (induction G) auto
    have c1: "distinct (map fst (map ?u G))" unfolding m by (rule d)
    have c2: "\<forall>(k', g') \<in> set (map ?u G).
        g' = filter (\<lambda>b. uploadIdOf (pathname b) = Some k') (xs @ [b]) \<and> g' \<noteq> []"
    proof -
      { fix k' g' assume "(k', g') \<in> set (map ?u G)"
        then obtain k0 g0 where in0: "(k0, g0) \<in> set G" and e: "(k', g') = ?u (k0, g0)"
          by auto
        from g [OF in0] e Some
        have "g' = filter (\<lambda>b. uploadIdOf (pathname b) = Some k') (xs @ [b]) \<and> g' \<noteq> []"
          by (cases "k0 = k") auto }
      then show ?thesis by blast
    qed
    have "fst ` set (map ?u G) = fst ` set G"
      using m by (metis set_map)
    also have "\<dots> = {k. \<exists>b \<in> set (xs @ [b]). uploadIdOf (pathname b) = Some k}"
      using True Some f by auto
    finally have c3: "fst ` set (map ?u G) = {k. \<exists>b \<in> set (xs @ [b]). uploadIdOf (pathname b) = Some k}" .
    show ?thesis unfolding a grp_ok_def using c1 c2 c3 by blast
  next
    case False
    then have a: "addToGroup G b = G @ [(k, [b])]"
      using Some by (simp add: addToGroup_def)
    from False f have nk: "\<And>x. x \<in> set xs \<Longrightarrow> uploadIdOf (pathname x) \<noteq> Some k"
      by auto
    have c1: "distinct (map fst (G @ [(k, [b])]))" using d False by auto
    have c2: "\<forall>(k', g') \<in> set (G @ [(k, [b])]).
        g' = filter (\<lambda>b. uploadIdOf (pathname b) = Some k') (xs @ [b]) \<and> g' \<noteq> []"
    proof -
      { fix k' g' assume "(k', g') \<in> set (G @ [(k, [b])])"
        then consider "(k', g') \<in> set G" | "k' = k" "g' = [b]" by auto
        then have "g' = filter (\<lambda>b. uploadIdOf (pathname b) = Some k') (xs @ [b]) \<and> g' \<noteq> []"
        proof cases
          case 1
          then have "k' \<noteq> k" using False by force
          with g [OF 1] Some show ?thesis by auto
        next
          case 2
          have "filter (\<lambda>b. uploadIdOf (pathname b) = Some k) xs = []"
            using nk by (auto simp: filter_empty_conv)
          with 2 Some show ?thesis by simp
        qed }
      then show ?thesis by blast
    qed
    have c3: "fst ` set (G @ [(k, [b])]) = {k. \<exists>b \<in> set (xs @ [b]). uploadIdOf (pathname b) = Some k}"
      using f Some by auto
    show ?thesis unfolding a grp_ok_def using c1 c2 c3 by blast
  qed
qed

lemma grp_ok_foldl: "grp_ok G xs \<Longrightarrow> grp_ok (foldl addToGroup G bs) (xs @ bs)"
proof (induction bs arbitrary: G xs)
  case Nil then show ?case by simp
next
  case (Cons b bs)
  from Cons.IH [OF grp_ok_add [OF Cons.prems, of b]] show ?case by simp
qed

lemma grp_ok_groupBlobs: "grp_ok (groupBlobs bs) bs"
  using grp_ok_foldl [of "[]" "[]" bs] by (simp add: groupBlobs_def grp_ok_def)


lemma oldest_foldl:
  "uploadedAt (foldl (\<lambda>oldest current.
        if uploadedAt current < uploadedAt oldest then current else oldest) b rest)
     \<in> uploadedAt ` set (b # rest)
   \<and> (\<forall>x \<in> set (b # rest). uploadedAt (foldl (\<lambda>oldest current.
        if uploadedAt current < uploadedAt oldest then current else oldest) b rest) \<le> uploadedAt x)"
proof (induction rest arbitrary: b)
  case Nil
  show ?case by simp
next
  case (Cons c rest)
  show ?case
  proof (cases "uploadedAt c < uploadedAt b")
    case True
    with Cons.IH [of c] show ?thesis by force
  next
    case False
    with Cons.IH [of b] show ?thesis by force
  qed
qed

lemma oldestBlob_Min:
  assumes "g \<noteq> []"
  shows "\<exists>oldest. oldestBlob g = Some oldest \<and> uploadedAt oldest = Min (uploadedAt ` set g)"
proof -
  from assms obtain b rest where g: "g = b # rest" by (cases g) auto
  let ?o = "foldl (\<lambda>oldest current.
        if uploadedAt current < uploadedAt oldest then current else oldest) b rest"
  have o: "oldestBlob g = Some ?o" by (simp add: oldestBlob_def g)
  from oldest_foldl [of b rest]
  have "uploadedAt ?o \<in> uploadedAt ` set g" "\<forall>y \<in> uploadedAt ` set g. uploadedAt ?o \<le> y"
    unfolding g by blast+
  then have "Min (uploadedAt ` set g) = uploadedAt ?o"
    by (intro Min_eqI) auto
  with o show ?thesis by simp
qed

lemma sweepGroup_nonempty:
  assumes "g \<noteq> []"
  shows "sweepGroup f now s (k, g) =
     (if groupOld now g
      then \<lparr>sw_store = deleteAll f g (sw_store s),
            totalDeleted = totalDeleted s + successfulDeletes f g,
            totalFailed = totalFailed s + failedDeletes f g\<rparr>
      else s)"
proof -
  from oldestBlob_Min [OF assms] obtain oldest where
    "oldestBlob g = Some oldest" "uploadedAt oldest = Min (uploadedAt ` set g)" by blast
  then show ?thesis by (simp add: sweepGroup_def groupOld_def)
qed

lemma sweep_store:
  assumes "\<forall>(k, g) \<in> set G. g \<noteq> []"
  shows "sw_store (foldl (sweepGroup f now) s G) =
     filter (\<lambda>b. \<not> (\<exists>(k, g) \<in> set G. groupOld now g \<and> pathname b \<in> pathname ` set g
                        \<and> \<not> f (pathname b))) (sw_store s)"
  using assms
proof (induction G arbitrary: s)
  case Nil
  show ?case by simp
next
  case (Cons kg G)
  obtain k g where kg: "kg = (k, g)" by (cases kg)
  from Cons.prems kg have ne: "g \<noteq> []" and rest: "\<forall>(k, g) \<in> set G. g \<noteq> []" by auto
  have st: "sw_store (sweepGroup f now s (k, g)) =
      filter (\<lambda>b. \<not> (groupOld now g \<and> pathname b \<in> pathname ` set g \<and> \<not> f (pathname b))) (sw_store s)"
    by (simp add: sweepGroup_nonempty [OF ne] deleteAll_filter)
  show ?case
    unfolding kg foldl_Cons Cons.IH [OF rest] st filter_filter
    by (rule filter_cong) auto
qed

lemma sweep_deleted:
  assumes "\<forall>(k, g) \<in> set G. g \<noteq> []"
  shows "totalDeleted (foldl (sweepGroup f now) s G) =
     totalDeleted s + sum_list (map (\<lambda>(k, g). if groupOld now g then successfulDeletes f g else 0) G)"
  using assms
proof (induction G arbitrary: s)
  case Nil
  show ?case by simp
next
  case (Cons kg G)
  obtain k g where kg: "kg = (k, g)" by (cases kg)
  from Cons.prems kg have ne: "g \<noteq> []" and rest: "\<forall>(k, g) \<in> set G. g \<noteq> []" by auto
  show ?case
    unfolding kg foldl_Cons Cons.IH [OF rest]
    by (simp add: sweepGroup_nonempty [OF ne])
qed

lemma sweep_failed:
  assumes "\<forall>(k, g) \<in> set G. g \<noteq> []"
  shows "totalFailed (foldl (sweepGroup f now) s G) =
     totalFailed s + sum_list (map (\<lambda>(k, g). if groupOld now g then failedDeletes f g else 0) G)"
  using assms
proof (induction G arbitrary: s)
  case Nil
  show ?case by simp
next
  case (Cons kg G)
  obtain k g where kg: "kg = (k, g)" by (cases kg)
  from Cons.prems kg have ne: "g \<noteq> []" and rest: "\<forall>(k, g) \<in> set G. g \<noteq> []" by auto
  show ?case
    unfolding kg foldl_Cons Cons.IH [OF rest]
    by (simp add: sweepGroup_nonempty [OF ne])
qed

lemma length_filter_disj:
  "\<forall>x \<in> set xs. \<not> (A x \<and> B x) \<Longrightarrow>
     length (filter (\<lambda>x. A x \<or> B x) xs) = length (filter A xs) + length (filter B xs)"
  by (induction xs) auto

lemma sum_by_key:
  "distinct ks \<Longrightarrow>
     sum_list (map (\<lambda>k. length (filter (\<lambda>b. key b = Some k \<and> Q k b) xs)) ks) =
     length (filter (\<lambda>b. \<exists>k \<in> set ks. key b = Some k \<and> Q k b) xs)"
proof (induction ks)
  case Nil
  show ?case by simp
next
  case (Cons k ks)
  have "length (filter (\<lambda>b. \<exists>k' \<in> set (k # ks). key b = Some k' \<and> Q k' b) xs) =
        length (filter (\<lambda>b. (key b = Some k \<and> Q k b) \<or> (\<exists>k' \<in> set ks. key b = Some k' \<and> Q k' b)) xs)"
    by (rule arg_cong [where f = length], rule filter_cong) auto
  also have "\<dots> = length (filter (\<lambda>b. key b = Some k \<and> Q k b) xs) +
        length (filter (\<lambda>b. \<exists>k' \<in> set ks. key b = Some k' \<and> Q k' b) xs)"
    using Cons.prems by (intro length_filter_disj) auto
  finally show ?case using Cons by simp
qed

lemma group_counts:
  assumes ok: "grp_ok G xs"
  shows "sum_list (map (\<lambda>(k, g). if groupOld now g then length (filter P g) else 0) G) =
     length (filter (\<lambda>b. (\<exists>(k, g) \<in> set G. groupOld now g \<and> b \<in> set g) \<and> P b) xs)"
proof -
  from ok have d: "distinct (map fst G)"
    and g: "\<And>k g. (k, g) \<in> set G \<Longrightarrow> g = filter (\<lambda>b. uploadIdOf (pathname b) = Some k) xs"
    by (auto simp: grp_ok_def)
  let ?grp = "\<lambda>k. filter (\<lambda>b. uploadIdOf (pathname b) = Some k) xs"
  let ?Q = "\<lambda>k b. groupOld now (?grp k) \<and> P b"
  have "map (\<lambda>(k, g). if groupOld now g then length (filter P g) else 0) G =
        map (\<lambda>k. length (filter (\<lambda>b. uploadIdOf (pathname b) = Some k \<and> ?Q k b) xs)) (map fst G)"
  proof -
    { fix k g' assume "(k, g') \<in> set G"
      from g [OF this] have e: "g' = ?grp k" .
      have "(if groupOld now g' then length (filter P g') else 0) =
            length (filter (\<lambda>b. uploadIdOf (pathname b) = Some k \<and> ?Q k b) xs)"
      proof (cases "groupOld now (?grp k)")
        case True
        have "filter P (?grp k) = filter (\<lambda>b. uploadIdOf (pathname b) = Some k \<and> ?Q k b) xs"
          unfolding filter_filter using True by (intro filter_cong) auto
        with True show ?thesis unfolding e by simp
      next
        case False
        then show ?thesis unfolding e by simp
      qed }
    then show ?thesis by (auto simp: map_eq_conv)
  qed
  also have "sum_list \<dots> =
      length (filter (\<lambda>b. \<exists>k \<in> set (map fst G). uploadIdOf (pathname b) = Some k \<and> ?Q k b) xs)"
    by (rule sum_by_key [OF d])
  also have "\<dots> = length (filter (\<lambda>b. (\<exists>(k, g) \<in> set G. groupOld now g \<and> b \<in> set g) \<and> P b) xs)"
  proof (rule arg_cong [where f = length], rule filter_cong [OF refl])
    fix b assume b: "b \<in> set xs"
    show "(\<exists>k \<in> set (map fst G). uploadIdOf (pathname b) = Some k \<and> ?Q k b) =
          ((\<exists>(k, g) \<in> set G. groupOld now g \<and> b \<in> set g) \<and> P b)"
    proof
      assume "\<exists>k \<in> set (map fst G). uploadIdOf (pathname b) = Some k \<and> ?Q k b"
      then obtain k g' where kg: "(k, g') \<in> set G" and u: "uploadIdOf (pathname b) = Some k"
        and q: "?Q k b" by auto
      from g [OF kg] have e: "g' = ?grp k" .
      from q e u b have "groupOld now g' \<and> b \<in> set g'" by simp
      with kg q show "(\<exists>(k, g) \<in> set G. groupOld now g \<and> b \<in> set g) \<and> P b" by blast
    next
      assume r: "(\<exists>(k, g) \<in> set G. groupOld now g \<and> b \<in> set g) \<and> P b"
      then obtain k g' where kg: "(k, g') \<in> set G" and o: "groupOld now g'" and m: "b \<in> set g'"
        by auto
      from g [OF kg] have e: "g' = ?grp k" .
      from m e have u: "uploadIdOf (pathname b) = Some k" by simp
      from kg have "k \<in> set (map fst G)" by force
      with u o e r show "\<exists>k \<in> set (map fst G). uploadIdOf (pathname b) = Some k \<and> ?Q k b"
        by blast
    qed
  qed
  finally show ?thesis .
qed


lemma sweep_orphaned_iff:
  assumes ok: "grp_ok G chunks" and ch: "chunks = list_blobs (js ''uploads/'') st"
    and b: "b \<in> set st"
  shows "(\<exists>(k, g) \<in> set G. groupOld now g \<and> pathname b \<in> pathname ` set g) \<longleftrightarrow>
         (prefix (js ''uploads/'') (pathname b) \<and>
          groupOld now (filter (\<lambda>b'. uploadIdOf (pathname b') = uploadIdOf (pathname b)) chunks))"
proof -
  from ok have g: "\<And>k g. (k, g) \<in> set G \<Longrightarrow> g = filter (\<lambda>b. uploadIdOf (pathname b) = Some k) chunks"
    and f: "fst ` set G = {k. \<exists>b \<in> set chunks. uploadIdOf (pathname b) = Some k}"
    by (auto simp: grp_ok_def)
  show ?thesis
  proof
    assume "\<exists>(k, g) \<in> set G. groupOld now g \<and> pathname b \<in> pathname ` set g"
    then obtain k g' b' where kg: "(k, g') \<in> set G" and o: "groupOld now g'"
      and b': "b' \<in> set g'" and p: "pathname b = pathname b'" by auto
    from g [OF kg] have e: "g' = filter (\<lambda>b. uploadIdOf (pathname b) = Some k) chunks" .
    from b' e have "b' \<in> set chunks" "uploadIdOf (pathname b') = Some k" by auto
    then have "prefix (js ''uploads/'') (pathname b)" "uploadIdOf (pathname b) = Some k"
      using p by (auto simp: ch list_blobs_def)
    with o e show "prefix (js ''uploads/'') (pathname b) \<and>
          groupOld now (filter (\<lambda>b'. uploadIdOf (pathname b') = uploadIdOf (pathname b)) chunks)"
      by simp
  next
    assume r: "prefix (js ''uploads/'') (pathname b) \<and>
          groupOld now (filter (\<lambda>b'. uploadIdOf (pathname b') = uploadIdOf (pathname b)) chunks)"
    then have bc: "b \<in> set chunks" using b by (simp add: ch list_blobs_def)
    from uploadIdOf_uploads r obtain k where k: "uploadIdOf (pathname b) = Some k" by blast
    with bc f have "k \<in> fst ` set G" by blast
    then obtain g' where kg: "(k, g') \<in> set G" by force
    from g [OF kg] have e: "g' = filter (\<lambda>b. uploadIdOf (pathname b) = Some k) chunks" .
    from e bc k have "b \<in> set g'" by simp
    moreover from r e k have "groupOld now g'" by simp
    ultimately show "\<exists>(k, g) \<in> set G. groupOld now g \<and> pathname b \<in> pathname ` set g"
      using kg by blast
  qed
qed

lemma sweep_member_iff:
  assumes ok: "grp_ok G chunks" and ch: "chunks = list_blobs (js ''uploads/'') st"
    and b: "b \<in> set chunks"
  shows "(\<exists>(k, g) \<in> set G. groupOld now g \<and> b \<in> set g) \<longleftrightarrow>
         (prefix (js ''uploads/'') (pathname b) \<and>
          groupOld now (filter (\<lambda>b'. uploadIdOf (pathname b') = uploadIdOf (pathname b)) chunks))"
proof -
  from b have bs: "b \<in> set st" by (simp add: ch list_blobs_def)
  from ok have g: "\<And>k g. (k, g) \<in> set G \<Longrightarrow> g = filter (\<lambda>b. uploadIdOf (pathname b) = Some k) chunks"
    by (auto simp: grp_ok_def)
  have "(\<exists>(k, g) \<in> set G. groupOld now g \<and> b \<in> set g) \<longleftrightarrow>
        (\<exists>(k, g) \<in> set G. groupOld now g \<and> pathname b \<in> pathname ` set g)"
  proof
    assume "\<exists>(k, g) \<in> set G. groupOld now g \<and> b \<in> set g"
    then show "\<exists>(k, g) \<in> set G. groupOld now g \<and> pathname b \<in> pathname ` set g" by blast
  next
    assume "\<exists>(k, g) \<in> set G. groupOld now g \<and> pathname b \<in> pathname ` set g"
    then obtain k g' b' where kg: "(k, g') \<in> set G" and o: "groupOld now g'"
      and b': "b' \<in> set g'" and p: "pathname b = pathname b'" by auto
    from g [OF kg] have e: "g' = filter (\<lambda>b. uploadIdOf (pathname b) = Some k) chunks" .
    from b' e p b have "b \<in> set g'" by auto
    with kg o show "\<exists>(k, g) \<in> set G. groupOld now g \<and> b \<in> set g" by blast
  qed
  with sweep_orphaned_iff [OF ok ch bs] show ?thesis by simp
qed

lemma grp_ok_length:
  assumes "grp_ok G xs"
  shows "length G = card ((\<lambda>b. uploadIdOf (pathname b)) ` {b \<in> set xs. uploadIdOf (pathname b) \<noteq> None})"
proof -
  from assms have d: "distinct (map fst G)"
    and f: "fst ` set G = {k. \<exists>b \<in> set xs. uploadIdOf (pathname b) = Some k}"
    by (auto simp: grp_ok_def)
  have "length G = card (set (map fst G))"
    using distinct_card [OF d] by simp
  also have "\<dots> = card (Some ` fst ` set G)"
    by (simp add: card_image)
  also have "Some ` fst ` set G =
     (\<lambda>b. uploadIdOf (pathname b)) ` {b \<in> set xs. uploadIdOf (pathname b) \<noteq> None}"
    unfolding f by (force simp: image_iff)
  finally show ?thesis .
qed

text \<open>
  C9: the sweep groups the objects under \<^verbatim>\<open>uploads/\<close> by upload id, takes each group's
  oldest upload time, and removes exactly the objects of the groups whose oldest object is
  more than 24 hours old and whose deletion succeeds; groups at or under the threshold and
  objects outside \<^verbatim>\<open>uploads/\<close> stay. The counts returned are the number of objects
  deleted and the number whose deletion failed, with the number of groups.
\<close>

theorem orphan_sweep_deletes_old_groups:
  "let chunks = list_blobs (js ''uploads/'') (blobs sv);
       groupOf = (\<lambda>b :: blob. filter (\<lambda>b'. uploadIdOf (pathname b') = uploadIdOf (pathname b)) chunks);
       orphaned = (\<lambda>b. prefix (js ''uploads/'') (pathname b) \<and>
                        now - Min (uploadedAt ` set (groupOf b)) > 24 * 60 * 60 * 1000);
       deleted = (\<lambda>b. orphaned b \<and> \<not> delFails (pathname b));
       (resp, sv') = cleanupOrphaned_POST delFails now sv
   in blobs sv' = filter (\<lambda>b. \<not> deleted b) (blobs sv)
      \<and> media sv' = media sv
      \<and> resp = (if chunks = [] then NoUploadChunks
                 else Swept (length (filter deleted (blobs sv)))
                        (length (filter (\<lambda>b. orphaned b \<and> delFails (pathname b)) chunks))
                        (card ((\<lambda>b. uploadIdOf (pathname b)) ` set chunks)))"
proof -
  define chunks where "chunks = list_blobs (js ''uploads/'') (blobs sv)"
  define orphaned where "orphaned = (\<lambda>b :: blob. prefix (js ''uploads/'') (pathname b) \<and>
     groupOld now (filter (\<lambda>b'. uploadIdOf (pathname b') = uploadIdOf (pathname b)) chunks))"
  define G where "G = groupBlobs chunks"
  have ok: "grp_ok G chunks" unfolding G_def by (rule grp_ok_groupBlobs)
  then have ne: "\<forall>(k, g) \<in> set G. g \<noteq> []" by (auto simp: grp_ok_def)
  have listed: "\<And>b. orphaned b \<Longrightarrow> b \<in> set (blobs sv) \<Longrightarrow> b \<in> set chunks"
    by (simp add: orphaned_def chunks_def list_blobs_def)
  have fl: "\<And>P. filter (\<lambda>b. orphaned b \<and> P b) (blobs sv) = filter (\<lambda>b. orphaned b \<and> P b) chunks"
    unfolding chunks_def list_blobs_def filter_filter
    by (rule filter_cong) (auto simp: orphaned_def)
  have stores: "sw_store (foldl (sweepGroup delFails now)
         \<lparr>sw_store = blobs sv, totalDeleted = 0, totalFailed = 0\<rparr> G) =
       filter (\<lambda>b. \<not> (orphaned b \<and> \<not> delFails (pathname b))) (blobs sv)"
    unfolding sweep_store [OF ne]
    using sweep_orphaned_iff [OF ok chunks_def, of _ now]
    by (auto intro!: filter_cong simp: orphaned_def)
  have cnt: "\<And>P. sum_list (map (\<lambda>(k, g). if groupOld now g then length (filter P g) else 0) G) =
      length (filter (\<lambda>b. orphaned b \<and> P b) chunks)"
    unfolding group_counts [OF ok]
    using sweep_member_iff [OF ok chunks_def, of _ now]
    by (auto intro!: arg_cong [where f = length] filter_cong simp: orphaned_def)
  have del: "totalDeleted (foldl (sweepGroup delFails now)
         \<lparr>sw_store = blobs sv, totalDeleted = 0, totalFailed = 0\<rparr> G) =
       length (filter (\<lambda>b. orphaned b \<and> \<not> delFails (pathname b)) (blobs sv))"
    unfolding sweep_deleted [OF ne] successfulDeletes_def fl
    using cnt [of "\<lambda>b. \<not> delFails (pathname b)"] by simp
  have fail: "totalFailed (foldl (sweepGroup delFails now)
         \<lparr>sw_store = blobs sv, totalDeleted = 0, totalFailed = 0\<rparr> G) =
       length (filter (\<lambda>b. orphaned b \<and> delFails (pathname b)) chunks)"
    unfolding sweep_failed [OF ne] failedDeletes_def
    using cnt [of "\<lambda>b. delFails (pathname b)"] by simp
  have keys: "{b \<in> set chunks. uploadIdOf (pathname b) \<noteq> None} = set chunks"
    using uploadIdOf_uploads by (auto simp: chunks_def list_blobs_def)
  have len: "length G = card ((\<lambda>b. uploadIdOf (pathname b)) ` set chunks)"
    using grp_ok_length [OF ok] unfolding keys .
  have empty: "chunks = [] \<Longrightarrow> filter (\<lambda>b. \<not> (orphaned b \<and> \<not> delFails (pathname b))) (blobs sv) = blobs sv"
    using listed by (auto simp: filter_id_conv)
  show ?thesis
    unfolding Let_def cleanupOrphaned_POST_def
    using stores del fail len empty
    by (simp add: chunks_def [symmetric] G_def [symmetric] orphaned_def groupOld_def ORPHAN_THRESHOLD_def)
qed

text \<open>
  Scenario D of the specification, with one deletion failing: the 30-hour group \<open>a\<close> is
  swept (one chunk deleted, one failed and kept), the 2-hour group \<open>b\<close> is untouched.
\<close>

theorem orphan_sweep_deletes_old_groups_witness:
  "(let chunks = list_blobs (js ''uploads/'') (blobs scenarioD);
       groupOf = (\<lambda>b :: blob. filter (\<lambda>b'. uploadIdOf (pathname b') = uploadIdOf (pathname b)) chunks);
       orphaned = (\<lambda>b. prefix (js ''uploads/'') (pathname b) \<and>
                        108000000 - Min (uploadedAt ` set (groupOf b)) > 24 * 60 * 60 * 1000);
       deleted = (\<lambda>b. orphaned b \<and> \<not> pathname b = js ''uploads/a/chunk-1.bin'');
       (resp, sv') = cleanupOrphaned_POST (\<lambda>p. p = js ''uploads/a/chunk-1.bin'') 108000000 scenarioD
   in blobs sv' = filter (\<lambda>b. \<not> deleted b) (blobs scenarioD)
      \<and> media sv' = media scenarioD
      \<and> resp = (if chunks = [] then NoUploadChunks
                 else Swept (length (filter deleted (blobs scenarioD)))
                        (length (filter (\<lambda>b. orphaned b \<and> pathname b = js ''uploads/a/chunk-1.bin'') chunks))
                        (card ((\<lambda>b. uploadIdOf (pathname b)) ` set chunks))))
   \<and> cleanupOrphaned_POST (\<lambda>p. p = js ''uploads/a/chunk-1.bin'') 108000000 scenarioD
     = (Swept 1 1 2,
        \<lparr>blobs = [\<lparr>pathname = js ''uploads/b/chunk-0.bin'', uploadedAt = 100800000, content = [2]\<rparr>,
                  \<lparr>pathname = js ''uploads/a/chunk-1.bin'', uploadedAt = 3600000, content = [3]\<rparr>],
         media = []\<rparr>)"
proof -
  have e: "cleanupOrphaned_POST (\<lambda>p. p = js ''uploads/a/chunk-1.bin'') 108000000 scenarioD
     = (Swept 1 1 2,
        \<lparr>blobs = [\<lparr>pathname = js ''uploads/b/chunk-0.bin'', uploadedAt = 100800000, content = [2]\<rparr>,
                  \<lparr>pathname = js ''uploads/a/chunk-1.bin'', uploadedAt = 3600000, content = [3]\<rparr>],
         media = []\<rparr>)"
    by code_simp
  show ?thesis
    by (rule conjI [OF orphan_sweep_deletes_old_groups
          [of scenarioD 108000000 "\<lambda>p. p = js ''uploads/a/chunk-1.bin''"] e])
qed


section \<open>Reassembly on completion\<close>




lemma totalChunksOf_covers:
  assumes "0 < cs"
  shows "len \<le> totalChunksOf len cs * cs"
proof -
  let ?m = "len + cs - 1"
  have "?m = ?m div cs * cs + ?m mod cs" by simp
  moreover have "?m mod cs < cs" using assms by simp
  ultimately have "?m < ?m div cs * cs + cs" by linarith
  then show ?thesis unfolding totalChunksOf_def using assms by linarith
qed








section \<open>Sending chunks\<close>












lemma totalChunksOf_pos:
  assumes "0 < cs" "0 < len"
  shows "0 < totalChunksOf len cs"
  using totalChunksOf_covers [OF assms(1), of len] assms(2) by (cases "totalChunksOf len cs") auto














section \<open>Splitting a file into chunks\<close>

lemma totalChunksOf_zero: "totalChunksOf 0 cs = 0"
  by (cases "cs = 0") (simp_all add: totalChunksOf_def)

lemma totalChunksOf_tight:
  assumes "0 < cs" "0 < totalChunksOf len cs"
  shows "(totalChunksOf len cs - 1) * cs < len"
proof -
  let ?m = "len + cs - 1"
  let ?n = "?m div cs"
  have "?n * cs \<le> ?m" by simp
  moreover from assms have "0 < ?n" by (simp add: totalChunksOf_def)
  then have "(?n - 1) * cs + cs = ?n * cs"
    by (cases ?n) simp_all
  ultimately have "(?n - 1) * cs + cs \<le> len + cs - 1" by simp
  with assms(1) have "(?n - 1) * cs < len" by linarith
  then show ?thesis by (simp add: totalChunksOf_def)
qed

text \<open>
  C8 does not hold: a zero-byte file gets no chunk at all, the count is not raised to one.
\<close>

theorem zero_byte_file_has_no_chunk:
  "f_totalChunks (newChunkedFile defaultOptions initialManager (exampleId, 0)) = 0
   \<and> f_chunks (newChunkedFile defaultOptions initialManager (exampleId, 0)) = []
   \<and> f_totalChunks (newChunkedFile defaultOptions initialManager (exampleId, 0))
       \<noteq> max (totalChunksOf 0 (o_chunkSize defaultOptions)) 1"
  by (simp add: newChunkedFile_def totalChunksOf_zero Let_def)

text \<open>
  C8 as amended: the total chunk count of a new file is the ceiling of size over chunk
  size, that is the least \<open>n\<close> with \<open>size \<le> n * chunkSize\<close>; it is zero exactly for a
  zero-byte file, whose chunk list is empty, and at least one otherwise. The chunk list has
  that many entries, with indices \<open>0, 1, \<dots>\<close>.
\<close>

theorem total_chunks_is_ceiling:
  assumes "0 < o_chunkSize opts"
  shows "let file = newChunkedFile opts m (fileId, fileSize);
             n = f_totalChunks file
         in fileSize \<le> n * o_chunkSize opts
            \<and> (0 < n \<longrightarrow> (n - 1) * o_chunkSize opts < fileSize)
            \<and> (n = 0 \<longleftrightarrow> fileSize = 0)
            \<and> (0 < fileSize \<longrightarrow> n = max (totalChunksOf fileSize (o_chunkSize opts)) 1)
            \<and> map c_index (f_chunks file) = [0..<n]"
proof -
  let ?cs = "o_chunkSize opts"
  let ?n = "totalChunksOf fileSize ?cs"
  have n: "f_totalChunks (newChunkedFile opts m (fileId, fileSize)) = ?n"
    by (simp add: newChunkedFile_def Let_def)
  have c: "map c_index (f_chunks (newChunkedFile opts m (fileId, fileSize))) = [0..<?n]"
    by (simp add: newChunkedFile_def Let_def comp_def)
  have a: "fileSize \<le> ?n * ?cs" by (rule totalChunksOf_covers [OF assms])
  have b: "0 < ?n \<longrightarrow> (?n - 1) * ?cs < fileSize"
    using totalChunksOf_tight [OF assms] by blast
  have z: "?n = 0 \<longleftrightarrow> fileSize = 0"
    using totalChunksOf_pos [OF assms, of fileSize] totalChunksOf_zero [of ?cs]
    by (cases "fileSize = 0") auto
  have p: "0 < fileSize \<longrightarrow> ?n = max ?n 1" using z by auto
  show ?thesis unfolding Let_def n c using a b z p by blast
qed

theorem total_chunks_is_ceiling_witness:
  "(let file = newChunkedFile defaultOptions initialManager (exampleId, 5 * 1024 * 1024);
        n = f_totalChunks file
    in 5 * 1024 * 1024 \<le> n * o_chunkSize defaultOptions
       \<and> (0 < n \<longrightarrow> (n - 1) * o_chunkSize defaultOptions < 5 * 1024 * 1024)
       \<and> (n = 0 \<longleftrightarrow> (5 * 1024 * 1024 :: nat) = 0)
       \<and> (0 < (5 * 1024 * 1024 :: nat) \<longrightarrow> n = max (totalChunksOf (5 * 1024 * 1024) (o_chunkSize defaultOptions)) 1)
       \<and> map c_index (f_chunks file) = [0..<n])
   \<and> f_totalChunks (newChunkedFile defaultOptions initialManager (exampleId, 5 * 1024 * 1024)) = 3"
proof -
  have p: "0 < o_chunkSize defaultOptions" by (simp add: defaultOptions_def)
  have e: "f_totalChunks (newChunkedFile defaultOptions initialManager (exampleId, 5 * 1024 * 1024)) = 3"
    by (simp add: newChunkedFile_def defaultOptions_def totalChunksOf_def Let_def)
  show ?thesis
    by (rule conjI [OF total_chunks_is_ceiling [OF p, of initialManager exampleId "5 * 1024 * 1024"] e])
qed

section \<open>The queue recomputation\<close>

lemma files_updateFileStatus:
  "files (updateFileStatus fid st qp m) =
     map (\<lambda>file. if f_id file = fid
                  then file\<lparr>f_status := st,
                            f_queuePosition := (if qp \<noteq> Undefined then qp else f_queuePosition file)\<rparr>
                  else file) (files m)"
  by (simp add: updateFileStatus_def)

lemma queueFile_files:
  assumes "file \<in> set (files m)" "distinct (map f_id (files m))"
  shows "files (queueFile m (file, k)) =
         map (\<lambda>f. if f_id f = f_id file then f\<lparr>f_status := Queued, f_queuePosition := Position k\<rparr> else f)
           (files m)"
proof -
  have same: "\<And>f. f \<in> set (files m) \<Longrightarrow> f_id f = f_id file \<Longrightarrow> f = file"
    using assms by (meson distinct_map inj_onD)
  show ?thesis
  proof (cases "f_status file = Queued")
    case True
    have eq: "\<And>f. f \<in> set (files m) \<Longrightarrow> f_id f = f_id file \<Longrightarrow>
        f\<lparr>f_queuePosition := Position k\<rparr> = f\<lparr>f_status := Queued, f_queuePosition := Position k\<rparr>"
    proof -
      fix f assume "f \<in> set (files m)" "f_id f = f_id file"
      with same have "f_status f = Queued" using True by blast
      then show "f\<lparr>f_queuePosition := Position k\<rparr> = f\<lparr>f_status := Queued, f_queuePosition := Position k\<rparr>"
        by (cases f) simp
    qed
    from True have "files (queueFile m (file, k)) =
        map (\<lambda>f. if f_id f = f_id file then f\<lparr>f_queuePosition := Position k\<rparr> else f) (files m)"
      by (simp add: queueFile_def Let_def)
    also have "\<dots> = map (\<lambda>f. if f_id f = f_id file then f\<lparr>f_status := Queued, f_queuePosition := Position k\<rparr> else f)
           (files m)"
      by (rule map_cong [OF refl]) (simp add: eq)
    finally show ?thesis .
  next
    case False
    then show ?thesis
      by (simp add: queueFile_def Let_def files_updateFileStatus comp_def cong: if_cong)
  qed
qed


lemma posIn_None: "fid \<notin> f_id ` set q \<Longrightarrow> posIn fid q off = None"
  by (induction q arbitrary: off) auto

lemma posIn_nth:
  "distinct (map f_id q) \<Longrightarrow> k < length q \<Longrightarrow> posIn (f_id (q ! k)) q off = Some (off + k)"
proof (induction q arbitrary: off k)
  case Nil
  then show ?case by simp
next
  case (Cons f q)
  show ?case
  proof (cases k)
    case 0
    then show ?thesis by simp
  next
    case (Suc j)
    with Cons.prems have j: "j < length q" and d: "distinct (map f_id q)"
      and "f_id f \<notin> f_id ` set q" by auto
    then have "f_id (q ! j) \<noteq> f_id f" by (metis imageI nth_mem)
    with Cons.IH [OF d j, of "Suc off"] Suc show ?thesis by simp
  qed
qed

lemma queueFile_frame:
  "uploadQueue (queueFile m fk) = uploadQueue m @ [f_id (fst fk)]"
  "activeFileId (queueFile m fk) = activeFileId m"
  "paused (queueFile m fk) = paused m"
  "processingQueue (queueFile m fk) = processingQueue m"
  "abortControllers (queueFile m fk) = abortControllers m"
  "aborted (queueFile m fk) = aborted m"
  "nextCtl (queueFile m fk) = nextCtl m"
  "tasks (queueFile m fk) = tasks m"
  "requests (queueFile m fk) = requests m"
  "timers (queueFile m fk) = timers m"
  "clock (queueFile m fk) = clock m"
  "sendLog (queueFile m fk) = sendLog m"
  "seenIds (queueFile m fk) = seenIds m"
  by (simp_all add: queueFile_def Let_def updateFileStatus_def)

lemma queue_fold_frame:
  "uploadQueue (foldl queueFile m fks) = uploadQueue m @ map (\<lambda>fk. f_id (fst fk)) fks"
  "activeFileId (foldl queueFile m fks) = activeFileId m"
  "paused (foldl queueFile m fks) = paused m"
  "processingQueue (foldl queueFile m fks) = processingQueue m"
  "abortControllers (foldl queueFile m fks) = abortControllers m"
  "aborted (foldl queueFile m fks) = aborted m"
  "nextCtl (foldl queueFile m fks) = nextCtl m"
  "tasks (foldl queueFile m fks) = tasks m"
  "requests (foldl queueFile m fks) = requests m"
  "timers (foldl queueFile m fks) = timers m"
  "clock (foldl queueFile m fks) = clock m"
  "sendLog (foldl queueFile m fks) = sendLog m"
  "seenIds (foldl queueFile m fks) = seenIds m"
  by (induction fks arbitrary: m) (simp_all add: queueFile_frame)

lemma zip_upt_Cons: "zip (f # q) [off..<off + length (f # q)] = (f, off) # zip q [Suc off..<Suc off + length q]"
  by (simp add: upt_conv_Cons del: upt_Suc)

lemma queue_fold_files:
  assumes "distinct (map f_id (files m0))" "set q \<subseteq> set (files m0)" "distinct (map f_id q)"
  shows "files (foldl queueFile m0 (zip q [off..<off + length q])) = map (queuedAs q off) (files m0)"
  using assms
proof (induction q arbitrary: m0 off)
  case Nil
  show ?case by (simp add: queuedAs_def)
next
  case (Cons f q)
  let ?upd = "\<lambda>g. if f_id g = f_id f then g\<lparr>f_status := Queued, f_queuePosition := Position off\<rparr> else g"
  let ?m1 = "queueFile m0 (f, off)"
  from Cons.prems have fin: "f \<in> set (files m0)" by simp
  have f1: "files ?m1 = map ?upd (files m0)"
    by (rule queueFile_files [OF fin Cons.prems(1)])
  have ids: "map f_id (files ?m1) = map f_id (files m0)"
    unfolding f1 by (simp add: comp_def cong: if_cong)
  from Cons.prems(3) have nf: "f_id f \<notin> f_id ` set q" and dq: "distinct (map f_id q)" by auto
  have sub: "set q \<subseteq> set (files ?m1)"
  proof
    fix g assume g: "g \<in> set q"
    with nf have "f_id g \<noteq> f_id f" by (metis image_eqI)
    moreover from g Cons.prems(2) have "g \<in> set (files m0)" by auto
    ultimately show "g \<in> set (files ?m1)" unfolding f1 by force
  qed
  have d1: "distinct (map f_id (files ?m1))" unfolding ids by (rule Cons.prems(1))
  have "files (foldl queueFile m0 (zip (f # q) [off..<off + length (f # q)])) =
        files (foldl queueFile ?m1 (zip q [Suc off..<Suc off + length q]))"
    unfolding zip_upt_Cons by simp
  also have "\<dots> = map (queuedAs q (Suc off)) (files ?m1)"
    by (rule Cons.IH [OF d1 sub dq])
  also have "\<dots> = map (\<lambda>g. queuedAs q (Suc off) (?upd g)) (files m0)"
    unfolding f1 by (simp add: comp_def)
  also have "\<dots> = map (queuedAs (f # q) off) (files m0)"
  proof (rule map_cong [OF refl])
    fix g assume "g \<in> set (files m0)"
    show "queuedAs q (Suc off) (?upd g) = queuedAs (f # q) off g"
    proof (cases "f_id g = f_id f")
      case True
      then show ?thesis using posIn_None [OF nf, of "Suc off"]
        by (simp add: queuedAs_def)
    next
      case False
      then show ?thesis by (simp add: queuedAs_def)
    qed
  qed
  finally show ?case .
qed


lemma addTimer_frame:
  "files (addTimer d t m) = files m"
  "uploadQueue (addTimer d t m) = uploadQueue m"
  "activeFileId (addTimer d t m) = activeFileId m"
  "paused (addTimer d t m) = paused m"
  "processingQueue (addTimer d t m) = processingQueue m"
  "abortControllers (addTimer d t m) = abortControllers m"
  "aborted (addTimer d t m) = aborted m"
  "nextCtl (addTimer d t m) = nextCtl m"
  "tasks (addTimer d t m) = tasks m"
  "requests (addTimer d t m) = requests m"
  "timers (addTimer d t m) = timers m @ [(clock m + d, t)]"
  "clock (addTimer d t m) = clock m"
  "sendLog (addTimer d t m) = sendLog m"
  "seenIds (addTimer d t m) = seenIds m"
  by (simp_all add: addTimer_def)

lemma map_fst_zip_len:
  fixes q :: "chunked_file list"
  shows "length q = length ns \<Longrightarrow> map (\<lambda>fk. f_id (fst fk)) (zip q ns) = map f_id q"
  by (induction q ns rule: list_induct2) auto

lemma map_fst_zip_upt:
  fixes q :: "chunked_file list"
  shows "map (\<lambda>fk. f_id (fst fk)) (zip q [off..<off + length q]) = map f_id q"
  by (rule map_fst_zip_len) simp

lemma updateQueuePositions_eq:
  "updateQueuePositions m =
     (let m1 = foldl queueFile (m\<lparr>uploadQueue := []\<rparr>) (zip (waitingFiles m) [0..<0 + length (waitingFiles m)])
      in if activeFileId m = None \<and> \<not> paused m \<and> waitingFiles m \<noteq> []
         then addTimer 0 TProcessQueue m1 else m1)"
proof -
  define q where "q = waitingFiles m"
  define m1 where "m1 = foldl queueFile (m\<lparr>uploadQueue := []\<rparr>) (zip q [0..<0 + length q])"
  have u: "updateQueuePositions m =
      (if activeFileId m1 = None \<and> \<not> paused m1 \<and> uploadQueue m1 \<noteq> []
       then addTimer 0 TProcessQueue m1 else m1)"
    by (simp only: updateQueuePositions_def Let_def q_def m1_def waitingFiles_def add_0)
  have a: "activeFileId m1 = activeFileId m" "paused m1 = paused m"
    unfolding m1_def by (simp_all add: queue_fold_frame)
  have "uploadQueue m1 = map f_id q"
    unfolding m1_def queue_fold_frame map_fst_zip_upt by simp
  then have b: "uploadQueue m1 \<noteq> [] \<longleftrightarrow> q \<noteq> []" by simp
  have "updateQueuePositions m =
      (if activeFileId m = None \<and> \<not> paused m \<and> q \<noteq> []
       then addTimer 0 TProcessQueue m1 else m1)"
    unfolding u a b ..
  then show ?thesis unfolding Let_def m1_def q_def .
qed

lemma waitingFiles_sub: "set (waitingFiles m) \<subseteq> set (files m)"
  by (auto simp: waitingFiles_def)

lemma waitingFiles_distinct:
  "distinct (map f_id (files m)) \<Longrightarrow> distinct (map f_id (waitingFiles m))"
  unfolding waitingFiles_def by (intro distinct_map_filter)

lemma updateQueuePositions_files:
  assumes "distinct (map f_id (files m))"
  shows "files (updateQueuePositions m) = map (queuedAs (waitingFiles m) 0) (files m)"
proof -
  have "files (foldl queueFile (m\<lparr>uploadQueue := []\<rparr>) (zip (waitingFiles m) [0..<0 + length (waitingFiles m)]))
        = map (queuedAs (waitingFiles m) 0) (files (m\<lparr>uploadQueue := []\<rparr>))"
    by (rule queue_fold_files) (use assms waitingFiles_sub waitingFiles_distinct in simp_all)
  then show ?thesis
    unfolding updateQueuePositions_eq Let_def by (simp add: addTimer_frame)
qed

lemma updateQueuePositions_frame:
  "uploadQueue (updateQueuePositions m) = map f_id (waitingFiles m)"
  "activeFileId (updateQueuePositions m) = activeFileId m"
  "paused (updateQueuePositions m) = paused m"
  "processingQueue (updateQueuePositions m) = processingQueue m"
  "abortControllers (updateQueuePositions m) = abortControllers m"
  "aborted (updateQueuePositions m) = aborted m"
  "nextCtl (updateQueuePositions m) = nextCtl m"
  "tasks (updateQueuePositions m) = tasks m"
  "requests (updateQueuePositions m) = requests m"
  "timers (updateQueuePositions m) =
     (if activeFileId m = None \<and> \<not> paused m \<and> waitingFiles m \<noteq> []
      then timers m @ [(clock m, TProcessQueue)] else timers m)"
  "clock (updateQueuePositions m) = clock m"
  "sendLog (updateQueuePositions m) = sendLog m"
  "seenIds (updateQueuePositions m) = seenIds m"
  unfolding updateQueuePositions_eq Let_def
  using map_fst_zip_upt [of "waitingFiles m" 0]
  by (simp_all add: addTimer_frame queue_fold_frame)

section \<open>Adding files\<close>

lemma newChunkedFile_simps:
  "f_id (newChunkedFile opts m p) = fst p"
  "f_status (newChunkedFile opts m p) = (if activeFileId m \<noteq> None then Queued else Pending)"
  "f_uploadedChunks (newChunkedFile opts m p) = 0"
  "f_progress (newChunkedFile opts m p) = Some 0"
  "f_totalChunks (newChunkedFile opts m p) = totalChunksOf (snd p) (o_chunkSize opts)"
  by (simp_all add: newChunkedFile_def Let_def)

text \<open>
  C7 does not hold: after \<^verbatim>\<open>addFiles\<close> on an idle manager the first added file is
  \<open>queued\<close> at position 0 like the others, not \<open>pending\<close>.
\<close>

theorem addFiles_first_file_is_queued:
  "map (\<lambda>f. (f_status f, f_queuePosition f))
     (files (addFiles testOptions [(js ''a'', 5), (js ''b'', 1)] initialManager))
   = [(Queued, Position 0), (Queued, Position 1)]
   \<and> f_status (hd (files (addFiles testOptions
         [(js ''a'', 5), (js ''b'', 1)] initialManager))) \<noteq> Pending"
  by code_simp

text \<open>
  C7 as amended: when \<^verbatim>\<open>addFiles\<close> is called while no file is active, every added file is
  created with status \<open>pending\<close> (these are the entries returned), and the recomputation of
  the queue then marks every added file \<open>queued\<close>, the first one included, with 0-based
  positions in insertion order after the files already waiting; the upload queue holds the
  waiting files in that order. Queue processing is scheduled if the manager is not paused
  and the queue is not empty.
\<close>

theorem addFiles_queues_every_file:
  assumes "activeFileId m = None" and "freshIds m (map fst newFiles)" and "0 < o_chunkSize opts"
    and "distinct (map f_id (files m))" and "f_id ` set (files m) \<subseteq> set (seenIds m)"
  shows "let added = map (newChunkedFile opts m) newFiles;
             waitingBefore = filter (\<lambda>file. f_status file \<noteq> FileCompleted \<and> f_status file \<noteq> FileError
                                            \<and> f_status file \<noteq> Uploading) (files m);
             m' = addFiles opts newFiles m
         in (\<forall>file \<in> set added. f_status file = Pending)
            \<and> length (files m') = length (files m) + length newFiles
            \<and> (\<forall>i < length newFiles.
                  files m' ! (length (files m) + i) =
                  (added ! i)\<lparr>f_status := Queued, f_queuePosition := Position (length waitingBefore + i)\<rparr>)
            \<and> uploadQueue m' = map f_id waitingBefore @ map fst newFiles
            \<and> timers m' = (if \<not> paused m \<and> uploadQueue m' \<noteq> []
                           then timers m @ [(clock m, TProcessQueue)] else timers m)"
proof -
  define added where "added = map (newChunkedFile opts m) newFiles"
  define wb where "wb = filter (\<lambda>file. f_status file \<noteq> FileCompleted \<and> f_status file \<noteq> FileError
                                            \<and> f_status file \<noteq> Uploading) (files m)"
  define m1 where "m1 = m\<lparr>files := files m @ added, seenIds := seenIds m @ map fst newFiles\<rparr>"
  have m': "addFiles opts newFiles m = updateQueuePositions m1"
    using assms(2,3) by (simp add: addFiles_def Let_def m1_def added_def)
  have ids: "map f_id added = map fst newFiles"
    by (simp add: added_def newChunkedFile_simps comp_def)
  have st: "\<forall>file \<in> set added. f_status file = Pending"
    using assms(1) by (auto simp: added_def newChunkedFile_simps)
  from assms(2) have dn: "distinct (map fst newFiles)"
    and fresh: "set (map fst newFiles) \<inter> set (seenIds m) = {}"
    by (simp_all add: freshIds_def)
  have d1: "distinct (map f_id (files m1))"
    using assms(4,5) dn fresh unfolding m1_def by (auto simp: ids)
  have w1: "waitingFiles m1 = wb @ added"
    using st assms(1) by (simp add: waitingFiles_def m1_def wb_def filter_id_conv)
  have f': "files (addFiles opts newFiles m) = map (queuedAs (wb @ added) 0) (files m @ added)"
    unfolding m' updateQueuePositions_files [OF d1] w1 by (simp add: m1_def)
  have dw: "distinct (map f_id (wb @ added))"
    using waitingFiles_distinct [OF d1] unfolding w1 .
  have c2: "length (files (addFiles opts newFiles m)) = length (files m) + length newFiles"
    unfolding f' by (simp add: added_def)
  have c3: "\<forall>i < length newFiles.
        files (addFiles opts newFiles m) ! (length (files m) + i) =
        (added ! i)\<lparr>f_status := Queued, f_queuePosition := Position (length wb + i)\<rparr>"
  proof (intro allI impI)
    fix i assume i: "i < length newFiles"
    then have ia: "i < length added" by (simp add: added_def)
    have "files (addFiles opts newFiles m) ! (length (files m) + i) = queuedAs (wb @ added) 0 (added ! i)"
      unfolding f' using ia by (simp add: nth_append)
    moreover have "(wb @ added) ! (length wb + i) = added ! i" by (simp add: nth_append)
    then have "posIn (f_id (added ! i)) (wb @ added) 0 = Some (0 + (length wb + i))"
      using posIn_nth [OF dw, of "length wb + i" 0] ia by simp
    ultimately show "files (addFiles opts newFiles m) ! (length (files m) + i) =
        (added ! i)\<lparr>f_status := Queued, f_queuePosition := Position (length wb + i)\<rparr>"
      by (simp add: queuedAs_def)
  qed
  have c4: "uploadQueue (addFiles opts newFiles m) = map f_id wb @ map fst newFiles"
    unfolding m' updateQueuePositions_frame w1 by (simp add: ids)
  have c5: "timers (addFiles opts newFiles m) =
      (if \<not> paused m \<and> uploadQueue (addFiles opts newFiles m) \<noteq> []
       then timers m @ [(clock m, TProcessQueue)] else timers m)"
    unfolding c4 unfolding m' updateQueuePositions_frame w1
    using assms(1) by (simp add: m1_def ids [symmetric])
  show ?thesis
    unfolding Let_def added_def [symmetric] wb_def [symmetric]
    using st c2 c3 c4 c5 by blast
qed

theorem addFiles_queues_every_file_witness:
  "(let added = map (newChunkedFile testOptions initialManager)
                  [(js ''a'', 5), (js ''b'', 1)];
        waitingBefore = filter (\<lambda>file. f_status file \<noteq> FileCompleted \<and> f_status file \<noteq> FileError
                                       \<and> f_status file \<noteq> Uploading) (files initialManager);
        m' = addFiles testOptions [(js ''a'', 5), (js ''b'', 1)] initialManager
    in (\<forall>file \<in> set added. f_status file = Pending)
       \<and> length (files m') = length (files initialManager)
            + length [(js ''a'', 5 :: nat), (js ''b'', 1)]
       \<and> (\<forall>i < length [(js ''a'', 5 :: nat), (js ''b'', 1)].
             files m' ! (length (files initialManager) + i) =
             (added ! i)\<lparr>f_status := Queued, f_queuePosition := Position (length waitingBefore + i)\<rparr>)
       \<and> uploadQueue m' = map f_id waitingBefore
            @ map fst [(js ''a'', 5 :: nat), (js ''b'', 1)]
       \<and> timers m' = (if \<not> paused initialManager \<and> uploadQueue m' \<noteq> []
                      then timers initialManager @ [(clock initialManager, TProcessQueue)]
                      else timers initialManager))
   \<and> uploadQueue (addFiles testOptions [(js ''a'', 5), (js ''b'', 1)]
        initialManager) = [js ''a'', js ''b'']"
proof -
  have h1: "activeFileId initialManager = None" by (simp add: initialManager_def)
  have h2: "freshIds initialManager (map fst [(js ''a'', 5 :: nat), (js ''b'', 1)])"
    by code_simp
  have h3: "0 < o_chunkSize testOptions" by (simp add: testOptions_def)
  have h4: "distinct (map f_id (files initialManager))" by (simp add: initialManager_def)
  have h5: "f_id ` set (files initialManager) \<subseteq> set (seenIds initialManager)"
    by (simp add: initialManager_def)
  have e: "uploadQueue (addFiles testOptions [(js ''a'', 5), (js ''b'', 1)]
        initialManager) = [js ''a'', js ''b'']"
    by code_simp
  show ?thesis
    by (rule conjI [OF addFiles_queues_every_file [OF h1 h2 h3 h4 h5] e])
qed

section \<open>The invariant of the manager\<close>

lemma files_ok_refl: "files_ok fs fs"
  by (auto simp: files_ok_def)

lemma files_ok_trans:
  assumes a: "files_ok fs fs'" and b: "files_ok fs' fs''"
  shows "files_ok fs fs''"
proof -
  have 1: "distinct (map f_id fs) \<longrightarrow> distinct (map f_id fs'')"
    using a b by (simp add: files_ok_def)
  have 2: "\<forall>f'' \<in> set fs''. \<exists>f \<in> set fs. f_id f = f_id f'' \<and>
                        (f_status f'' = Uploading \<longrightarrow> f_status f = Uploading)"
  proof
    fix f'' assume "f'' \<in> set fs''"
    with b obtain f' where f': "f' \<in> set fs'" "f_id f' = f_id f''"
      "f_status f'' = Uploading \<longrightarrow> f_status f' = Uploading"
      unfolding files_ok_def by blast
    with a obtain f where "f \<in> set fs" "f_id f = f_id f'"
      "f_status f' = Uploading \<longrightarrow> f_status f = Uploading"
      unfolding files_ok_def by blast
    with f' show "\<exists>f \<in> set fs. f_id f = f_id f'' \<and>
                        (f_status f'' = Uploading \<longrightarrow> f_status f = Uploading)" by auto
  qed
  have 3: "distinct (map f_id fs) \<and> (\<forall>f \<in> set fs. counted f) \<longrightarrow> (\<forall>f \<in> set fs''. counted f)"
  proof
    assume h: "distinct (map f_id fs) \<and> (\<forall>f \<in> set fs. counted f)"
    with a have "distinct (map f_id fs')" "\<forall>f \<in> set fs'. counted f"
      by (simp_all add: files_ok_def)
    with b show "\<forall>f \<in> set fs''. counted f" by (simp add: files_ok_def)
  qed
  show ?thesis unfolding files_ok_def using 1 2 3 by blast
qed

lemma files_ok_map:
  assumes "\<And>f. f_id (g f) = f_id f"
    and "\<And>f. f_status (g f) = Uploading \<Longrightarrow> f_status f = Uploading"
    and "\<And>f. distinct (map f_id fs) \<Longrightarrow> f \<in> set fs \<Longrightarrow> counted f \<Longrightarrow> counted (g f)"
  shows "files_ok fs (map g fs)"
proof -
  have "map f_id (map g fs) = map f_id fs" using assms(1) by (induction fs) auto
  then have 1: "distinct (map f_id fs) \<longrightarrow> distinct (map f_id (map g fs))" by (simp only: simp_thms)
  have 2: "\<forall>f' \<in> set (map g fs). \<exists>f \<in> set fs. f_id f = f_id f' \<and>
                        (f_status f' = Uploading \<longrightarrow> f_status f = Uploading)"
    using assms(1,2) by auto
  have 3: "distinct (map f_id fs) \<and> (\<forall>f \<in> set fs. counted f) \<longrightarrow> (\<forall>f' \<in> set (map g fs). counted f')"
    using assms(3) by auto
  show ?thesis unfolding files_ok_def using 1 2 3 by blast
qed

lemma files_ok_filter: "files_ok fs (filter P fs)"
  unfolding files_ok_def by (auto simp: distinct_map_filter)

lemma quiet_refl: "quiet m m"
  by (simp add: quiet_def files_ok_refl)

lemma quiet_trans: "quiet m m' \<Longrightarrow> quiet m' m'' \<Longrightarrow> quiet m m''"
  unfolding quiet_def using files_ok_trans by auto

lemma quiet_tasks:
  assumes "quiet m m'"
  shows "length (tasks m') = length (tasks m)"
    and "(\<exists>t \<in> set (tasks m'). P (t_file t) (t_ctl t)) \<longleftrightarrow> (\<exists>t \<in> set (tasks m). P (t_file t) (t_ctl t))"
    and "(\<forall>t \<in> set (tasks m'). P (t_file t) (t_ctl t)) \<longleftrightarrow> (\<forall>t \<in> set (tasks m). P (t_file t) (t_ctl t))"
proof -
  from assms have tv: "map (\<lambda>t. (t_file t, t_ctl t)) (tasks m') = map (\<lambda>t. (t_file t, t_ctl t)) (tasks m)"
    by (simp add: quiet_def)
  from tv have "length (map (\<lambda>t. (t_file t, t_ctl t)) (tasks m')) = length (map (\<lambda>t. (t_file t, t_ctl t)) (tasks m))"
    by (rule arg_cong)
  then show "length (tasks m') = length (tasks m)" by simp
  from tv have "set (map (\<lambda>t. (t_file t, t_ctl t)) (tasks m')) = set (map (\<lambda>t. (t_file t, t_ctl t)) (tasks m))"
    by (rule arg_cong)
  then have ts: "(\<lambda>t. (t_file t, t_ctl t)) ` set (tasks m') = (\<lambda>t. (t_file t, t_ctl t)) ` set (tasks m)"
    by simp
  have "(\<exists>t \<in> set (tasks m'). P (t_file t) (t_ctl t)) \<longleftrightarrow>
        (\<exists>p \<in> (\<lambda>t. (t_file t, t_ctl t)) ` set (tasks m'). P (fst p) (snd p))" by auto
  also have "\<dots> \<longleftrightarrow> (\<exists>p \<in> (\<lambda>t. (t_file t, t_ctl t)) ` set (tasks m). P (fst p) (snd p))"
    unfolding ts ..
  also have "\<dots> \<longleftrightarrow> (\<exists>t \<in> set (tasks m). P (t_file t) (t_ctl t))" by auto
  finally show "(\<exists>t \<in> set (tasks m'). P (t_file t) (t_ctl t)) \<longleftrightarrow> (\<exists>t \<in> set (tasks m). P (t_file t) (t_ctl t))" .
  have "(\<forall>t \<in> set (tasks m'). P (t_file t) (t_ctl t)) \<longleftrightarrow>
        (\<forall>p \<in> (\<lambda>t. (t_file t, t_ctl t)) ` set (tasks m'). P (fst p) (snd p))" by auto
  also have "\<dots> \<longleftrightarrow> (\<forall>p \<in> (\<lambda>t. (t_file t, t_ctl t)) ` set (tasks m). P (fst p) (snd p))"
    unfolding ts ..
  also have "\<dots> \<longleftrightarrow> (\<forall>t \<in> set (tasks m). P (t_file t) (t_ctl t))" by auto
  finally show "(\<forall>t \<in> set (tasks m'). P (t_file t) (t_ctl t)) \<longleftrightarrow> (\<forall>t \<in> set (tasks m). P (t_file t) (t_ctl t))" .
qed

lemma quiet_tasks_Nil: "quiet m m' \<Longrightarrow> tasks m' = [] \<longleftrightarrow> tasks m = []"
  using quiet_tasks(1) [of m m'] by (simp flip: length_0_conv)

lemma quiet_base:
  assumes "base_inv m" "quiet m m'"
  shows "base_inv m'"
proof -
  from assms(2) have eqs: "processingQueue m' = processingQueue m" "abortControllers m' = abortControllers m"
      "aborted m' = aborted m" "nextCtl m' = nextCtl m" "seenIds m' = seenIds m"
    and fo: "files_ok (files m) (files m')"
    by (simp_all add: quiet_def)
  note len = quiet_tasks(1) [OF assms(2)]
  note ta = quiet_tasks(3) [OF assms(2)]
  from assms(1) have i: "distinct (map f_id (files m))" "f_id ` set (files m) \<subseteq> set (seenIds m)"
    "\<forall>f \<in> set (files m). counted f"
    "length (tasks m) \<le> 1" "tasks m \<noteq> [] \<longrightarrow> processingQueue m" "controllers_ok m"
    by (simp_all add: base_inv_def)
  have a: "distinct (map f_id (files m'))" using fo i(1) by (simp add: files_ok_def)
  have b: "f_id ` set (files m') \<subseteq> set (seenIds m')"
  proof
    fix x assume "x \<in> f_id ` set (files m')"
    then obtain f' where "f' \<in> set (files m')" "x = f_id f'" by auto
    with fo obtain f where "f \<in> set (files m)" "f_id f = x" unfolding files_ok_def by blast
    with i(2) show "x \<in> set (seenIds m')" unfolding eqs by auto
  qed
  have k: "\<forall>f \<in> set (files m'). counted f" using fo i(1,3) by (simp add: files_ok_def)
  have c: "length (tasks m') \<le> 1" using len i(4) by simp
  from len have "tasks m' = [] \<longleftrightarrow> tasks m = []" by (simp flip: length_0_conv)
  then have d: "tasks m' \<noteq> [] \<longrightarrow> processingQueue m'" using i(5) eqs(1) by simp
  have g1: "\<forall>t \<in> set (tasks m'). t_ctl t < nextCtl m"
    using ta [of "\<lambda>a b. b < nextCtl m"] i(6) by (simp add: controllers_ok_def)
  have g2: "\<forall>kc \<in> set (abortControllers m).
        snd kc < nextCtl m \<and> (\<forall>t \<in> set (tasks m'). t_ctl t = snd kc \<longrightarrow> t_file t = fst kc)"
  proof
    fix kc assume "kc \<in> set (abortControllers m)"
    with i(6) have "snd kc < nextCtl m" "\<forall>t \<in> set (tasks m). t_ctl t = snd kc \<longrightarrow> t_file t = fst kc"
      by (auto simp: controllers_ok_def)
    then show "snd kc < nextCtl m \<and> (\<forall>t \<in> set (tasks m'). t_ctl t = snd kc \<longrightarrow> t_file t = fst kc)"
      using ta [of "\<lambda>a b. b = snd kc \<longrightarrow> a = fst kc"] by simp
  qed
  have g3: "\<forall>c \<in> set (aborted m). c < nextCtl m" using i(6) by (simp add: controllers_ok_def)
  have g: "controllers_ok m'"
    unfolding controllers_ok_def eqs using g1 g2 g3 by blast
  show ?thesis unfolding base_inv_def using a b k c d g by blast
qed

lemma quiet_uploading:
  assumes "uploading_ok m" "quiet m m'"
  shows "uploading_ok m'"
  unfolding uploading_ok_def
proof (intro ballI impI)
  from assms(2) have eqs: "aborted m' = aborted m" and fo: "files_ok (files m) (files m')"
    by (simp_all add: quiet_def)
  fix f' assume f': "f' \<in> set (files m')" "f_status f' = Uploading"
  with fo obtain f where f: "f \<in> set (files m)" "f_id f = f_id f'" "f_status f = Uploading"
    unfolding files_ok_def by blast
  with assms(1) have "\<exists>t \<in> set (tasks m). t_file t = f_id f' \<and> t_ctl t \<notin> set (aborted m)"
    unfolding uploading_ok_def by force
  then show "\<exists>t \<in> set (tasks m'). t_file t = f_id f' \<and> t_ctl t \<notin> set (aborted m')"
    unfolding eqs using quiet_tasks(2) [OF assms(2), of "\<lambda>a b. a = f_id f' \<and> b \<notin> set (aborted m)"] by simp
qed

lemma quiet_inv:
  assumes "mgr_inv m" "quiet m m'"
  shows "mgr_inv m'"
  using assms quiet_base quiet_uploading unfolding mgr_inv_def by blast

lemma quiet_files_map:
  assumes "\<And>f. f_id (g f) = f_id f"
    and "\<And>f. f_status (g f) = Uploading \<Longrightarrow> f_status f = Uploading"
    and "\<And>f. distinct (map f_id (files m)) \<Longrightarrow> f \<in> set (files m) \<Longrightarrow> counted f \<Longrightarrow> counted (g f)"
  shows "quiet m (m\<lparr>files := map g (files m)\<rparr>)"
  using files_ok_map [of g "files m", OF assms] by (simp add: quiet_def)

lemma quiet_updateFileStatus:
  "st \<noteq> Uploading \<Longrightarrow> quiet m (updateFileStatus fid st qp m)"
  unfolding updateFileStatus_def by (rule quiet_files_map) (auto simp: counted_def split: if_splits)

lemma count_status_update:
  "length (filter (\<lambda>c. c_status c = s) (xs[i := (xs ! i)\<lparr>c_retries := n\<rparr>])) =
   length (filter (\<lambda>c. c_status c = s) xs)"
proof -
  have "map c_status (xs[i := (xs ! i)\<lparr>c_retries := n\<rparr>]) = map c_status xs"
  proof (cases "i < length xs")
    case True
    then show ?thesis by (auto simp: list_eq_iff_nth_eq nth_list_update)
  next
    case False
    then show ?thesis by (simp add: list_update_beyond)
  qed
  then have "filter (\<lambda>x. x = s) (map c_status (xs[i := (xs ! i)\<lparr>c_retries := n\<rparr>])) =
             filter (\<lambda>x. x = s) (map c_status xs)" by (rule arg_cong)
  then have "length (filter (\<lambda>x. x = s) (map c_status (xs[i := (xs ! i)\<lparr>c_retries := n\<rparr>]))) =
             length (filter (\<lambda>x. x = s) (map c_status xs))" by (rule arg_cong)
  then show ?thesis by (simp add: filter_map comp_def)
qed

lemma quiet_updateChunkStatus: "quiet m (updateChunkStatus fid i st m)"
  unfolding updateChunkStatus_def
  by (rule quiet_files_map) (auto simp: Let_def counted_def split: if_splits)

lemma quiet_updateChunkRetries: "quiet m (updateChunkRetries fid i n m)"
  unfolding updateChunkRetries_def
  by (rule quiet_files_map) (auto simp: counted_def count_status_update split: if_splits)

lemma find_distinct_id:
  assumes "distinct (map f_id fs)" "f \<in> set fs" "find (\<lambda>x. f_id x = f_id f) fs = Some fl"
  shows "fl = f"
proof -
  from assms(3) have "fl \<in> set fs" "f_id fl = f_id f"
    by (auto simp: find_Some_iff)
  with assms(1,2) show ?thesis by (auto simp: distinct_map dest: inj_onD)
qed

lemma quiet_updateFileProgress: "quiet m (updateFileProgress fid m)"
proof (cases "find (\<lambda>f. f_id f = fid) (files m)")
  case None
  then show ?thesis by (simp add: updateFileProgress_def quiet_refl)
next
  case (Some fl)
  let ?n = "length (filter (\<lambda>c. c_status c = ChunkCompleted) (f_chunks fl))"
  let ?g = "\<lambda>f. if f_id f = fid
                then f\<lparr>f_progress := progressOf ?n (f_totalChunks fl), f_uploadedChunks := ?n\<rparr> else f"
  have "quiet m (m\<lparr>files := map ?g (files m)\<rparr>)"
  proof (rule quiet_files_map)
    fix f show "f_id (?g f) = f_id f" by simp
  next
    fix f assume "f_status (?g f) = Uploading"
    then show "f_status f = Uploading" by (simp split: if_splits)
  next
    fix f assume d: "distinct (map f_id (files m))" and f: "f \<in> set (files m)" and c: "counted f"
    show "counted (?g f)"
    proof (cases "f_id f = fid")
      case True
      with Some have "find (\<lambda>x. f_id x = f_id f) (files m) = Some fl" by simp
      from find_distinct_id [OF d f this] have "fl = f" .
      with True show ?thesis by (simp add: counted_def)
    next
      case False
      with c show ?thesis by simp
    qed
  qed
  with Some show ?thesis by (simp add: updateFileProgress_def Let_def)
qed

lemma quiet_addTimer: "quiet m (addTimer d t m)"
  by (simp add: quiet_def addTimer_def files_ok_refl)

lemma quiet_fields:
  "quiet m (m\<lparr>uploadQueue := q\<rparr>)"
  "quiet m (m\<lparr>activeFileId := a\<rparr>)"
  "quiet m (m\<lparr>paused := p\<rparr>)"
  "quiet m (m\<lparr>timers := ts\<rparr>)"
  "quiet m (m\<lparr>clock := c\<rparr>)"
  "quiet m (m\<lparr>requests := rs\<rparr>)"
  "quiet m (m\<lparr>sendLog := sl\<rparr>)"
  "quiet m (m\<lparr>timers := ts, clock := c\<rparr>)"
  "quiet m (m\<lparr>files := filter P (files m)\<rparr>)"
  by (simp_all add: quiet_def files_ok_refl files_ok_filter)

lemma quiet_queueFile: "quiet m (queueFile m fk)"
proof -
  let ?m1 = "m\<lparr>uploadQueue := uploadQueue m @ [f_id (fst fk)]\<rparr>"
  let ?m2 = "if f_status (fst fk) \<noteq> Queued
             then updateFileStatus (f_id (fst fk)) Queued (Position (snd fk)) ?m1 else ?m1"
  have a: "quiet m ?m1" by (rule quiet_fields)
  have b: "quiet ?m1 ?m2" by (simp add: quiet_updateFileStatus quiet_refl)
  have c: "quiet ?m2 (?m2\<lparr>files := map (\<lambda>f. if f_id f = f_id (fst fk)
                  then f\<lparr>f_queuePosition := Position (snd fk)\<rparr> else f) (files ?m2)\<rparr>)"
    by (rule quiet_files_map) (auto simp: counted_def split: if_splits)
  have "queueFile m fk = ?m2\<lparr>files := map (\<lambda>f. if f_id f = f_id (fst fk)
                  then f\<lparr>f_queuePosition := Position (snd fk)\<rparr> else f) (files ?m2)\<rparr>"
    by (simp add: queueFile_def Let_def)
  with quiet_trans [OF quiet_trans [OF a b] c] show ?thesis by simp
qed

lemma quiet_queue_fold: "quiet m (foldl queueFile m fks)"
proof (induction fks arbitrary: m)
  case Nil
  show ?case by (simp add: quiet_refl)
next
  case (Cons fk fks)
  from quiet_trans [OF quiet_queueFile Cons [of "queueFile m fk"]] show ?case by simp
qed

lemma quiet_updateQueuePositions: "quiet m (updateQueuePositions m)"
proof -
  let ?m1 = "foldl queueFile (m\<lparr>uploadQueue := []\<rparr>) (zip (waitingFiles m) [0..<0 + length (waitingFiles m)])"
  have a: "quiet m ?m1" by (rule quiet_trans [OF quiet_fields(1) quiet_queue_fold])
  have b: "quiet ?m1 (addTimer 0 TProcessQueue ?m1)" by (rule quiet_addTimer)
  show ?thesis
    unfolding updateQueuePositions_eq Let_def using a quiet_trans [OF a b] by simp
qed

lemma quiet_updateTask:
  assumes "\<And>t. t \<in> set (tasks m) \<Longrightarrow> t_ctl t = ctl \<Longrightarrow> t_file (f t) = t_file t \<and> t_ctl (f t) = t_ctl t"
  shows "quiet m (updateTask ctl f m)"
proof -
  have "map (\<lambda>t. (t_file t, t_ctl t)) (map (\<lambda>t. if t_ctl t = ctl then f t else t) (tasks m)) =
        map (\<lambda>t. (t_file t, t_ctl t)) (tasks m)"
    using assms by (induction "tasks m") auto
  then show ?thesis by (simp add: quiet_def updateTask_def files_ok_refl)
qed

lemma quiet_startChunkUpload: "quiet m (startChunkUpload ctl fid i m)"
proof -
  let ?m1 = "updateChunkStatus fid i ChunkUploading m"
  have "quiet ?m1 (startChunkUpload ctl fid i m)"
    by (simp add: startChunkUpload_def Let_def quiet_def files_ok_refl)
  with quiet_updateChunkStatus show ?thesis by (rule quiet_trans)
qed

lemma quiet_fillChunks:
  "quiet m (snd (snd (snd (fillChunks mx found ctl fid queue active m))))"
proof (induction mx found ctl fid queue active m rule: fillChunks.induct)
  case (1 mx found ctl fid active m)
  show ?case by (simp add: quiet_refl)
next
  case (2 mx found ctl fid chunk queue active m)
  show ?case
  proof (cases "length active < mx")
    case False
    then show ?thesis by (simp add: quiet_refl)
  next
    case True
    define a' where "a' = (if c_index chunk \<in> set active then active else active @ [c_index chunk])"
    define m' where "m' = (if found then startChunkUpload ctl fid (c_index chunk) m else m)"
    obtain q a st mm where eq: "fillChunks mx found ctl fid queue a' m' = (q, a, st, mm)"
      by (cases "fillChunks mx found ctl fid queue a' m'") auto
    have q1: "quiet m m'" unfolding m'_def by (simp add: quiet_startChunkUpload quiet_refl)
    from 2 [OF True refl refl] have "quiet m' (snd (snd (snd (fillChunks mx found ctl fid queue a' m'))))"
      unfolding a'_def m'_def .
    then have "quiet m' mm" unfolding eq by simp
    with q1 have q2: "quiet m mm" by (rule quiet_trans)
    have "fillChunks mx found ctl fid (chunk # queue) active m = (q, a, c_index chunk # st, mm)"
      using True eq unfolding a'_def m'_def by (simp add: Let_def)
    with q2 show ?thesis by simp
  qed
qed

lemma tasks_startChunkUpload: "tasks (startChunkUpload ctl fid i m) = tasks m"
  by (simp add: startChunkUpload_def updateChunkStatus_def Let_def)

lemma tasks_fillChunks:
  "tasks (snd (snd (snd (fillChunks mx found ctl fid queue active m)))) = tasks m"
proof (induction mx found ctl fid queue active m rule: fillChunks.induct)
  case (1 mx found ctl fid active m)
  show ?case by simp
next
  case (2 mx found ctl fid chunk queue active m)
  show ?case
  proof (cases "length active < mx")
    case False
    then show ?thesis by simp
  next
    case True
    define a' where "a' = (if c_index chunk \<in> set active then active else active @ [c_index chunk])"
    define m' where "m' = (if found then startChunkUpload ctl fid (c_index chunk) m else m)"
    obtain q a st mm where eq: "fillChunks mx found ctl fid queue a' m' = (q, a, st, mm)"
      by (cases "fillChunks mx found ctl fid queue a' m'") auto
    have q1: "tasks m' = tasks m" unfolding m'_def by (simp add: tasks_startChunkUpload)
    from 2 [OF True refl refl] have "tasks (snd (snd (snd (fillChunks mx found ctl fid queue a' m')))) = tasks m'"
      unfolding a'_def m'_def .
    then have "tasks mm = tasks m'" unfolding eq by simp
    with q1 have q2: "tasks mm = tasks m" by simp
    have "fillChunks mx found ctl fid (chunk # queue) active m = (q, a, c_index chunk # st, mm)"
      using True eq unfolding a'_def m'_def by (simp add: Let_def)
    with q2 show ?thesis by simp
  qed
qed

lemma quiet_settleLocal: "quiet m (settleLocal r res m)"
  unfolding settleLocal_def by (rule quiet_updateTask) simp

lemma quiet_chunkFailed: "quiet m (chunkFailed opts r m)"
proof -
  let ?m1 = "settleLocal r RError m"
  have a: "quiet m ?m1" by (rule quiet_settleLocal)
  have b: "\<And>n d t. quiet ?m1 (addTimer d t (updateChunkRetries (r_file r) (r_index r) n ?m1))"
    by (rule quiet_trans [OF quiet_updateChunkRetries quiet_addTimer])
  show ?thesis
    unfolding chunkFailed_def Let_def
    using a quiet_trans [OF a b] by (simp split: option.splits)
qed

lemma chunkResponse_eq:
  assumes "\<not> length (requests m) \<le> k"
  shows "chunkResponse opts k outcome m =
     (let r = requests m ! k;
          m0 = m\<lparr>requests := take k (requests m) @ drop (Suc k) (requests m)\<rparr>
      in case outcome of
        ChunkOk \<Rightarrow> settleLocal r RTrue (updateFileProgress (r_file r) (updateChunkStatus (r_file r) (r_index r) ChunkCompleted m0))
      | ChunkTransportFailure \<Rightarrow> chunkFailed opts r (updateChunkStatus (r_file r) (r_index r) ChunkError m0)
      | ChunkBadBody \<Rightarrow> chunkFailed opts r (updateChunkStatus (r_file r) (r_index r) ChunkError
            (updateFileProgress (r_file r) (updateChunkStatus (r_file r) (r_index r) ChunkCompleted m0))))"
  using assms by (simp add: chunkResponse_def Let_def)

lemma quiet_chunkResponse: "quiet m (chunkResponse opts k outcome m)"
proof (cases "length (requests m) \<le> k")
  case True
  then show ?thesis by (simp add: chunkResponse_def quiet_refl)
next
  case False
  define r where "r = requests m ! k"
  define m0 where "m0 = m\<lparr>requests := take k (requests m) @ drop (Suc k) (requests m)\<rparr>"
  have q0: "quiet m m0" unfolding m0_def by (rule quiet_fields)
  have qc: "\<And>x. quiet x (updateFileProgress (r_file r) (updateChunkStatus (r_file r) (r_index r) ChunkCompleted x))"
    by (rule quiet_trans [OF quiet_updateChunkStatus quiet_updateFileProgress])
  have qf: "\<And>x. quiet x (chunkFailed opts r (updateChunkStatus (r_file r) (r_index r) ChunkError x))"
    by (rule quiet_trans [OF quiet_updateChunkStatus quiet_chunkFailed])
  note e = chunkResponse_eq [OF False, of opts outcome, unfolded Let_def, folded r_def m0_def]
  show ?thesis
  proof (cases outcome)
    case ChunkOk
    with e quiet_trans [OF q0 quiet_trans [OF qc quiet_settleLocal]] show ?thesis by simp
  next
    case ChunkTransportFailure
    with e quiet_trans [OF q0 qf] show ?thesis by simp
  next
    case ChunkBadBody
    with e quiet_trans [OF q0 quiet_trans [OF qc qf]] show ?thesis by simp
  qed
qed

lemma inv_processingQueue:
  "mgr_inv m \<Longrightarrow> tasks m = [] \<Longrightarrow> mgr_inv (m\<lparr>processingQueue := b\<rparr>)"
  by (simp add: mgr_inv_def base_inv_def uploading_ok_def controllers_ok_def)

lemma inv_finishQueuePass:
  assumes "mgr_inv m" "tasks m = []"
  shows "mgr_inv (finishQueuePass m)"
proof -
  let ?m2 = "m\<lparr>uploadQueue := tl (uploadQueue m), activeFileId := None\<rparr>"
  let ?m4 = "addTimer 0 TProcessQueue (updateQueuePositions ?m2)"
  have "quiet m ?m2" by (simp add: quiet_def files_ok_refl)
  then have q: "quiet m ?m4"
    by (rule quiet_trans [OF _ quiet_trans [OF quiet_updateQueuePositions quiet_addTimer]])
  from quiet_inv [OF assms(1) q] have i: "mgr_inv ?m4" .
  from quiet_tasks_Nil [OF q] assms(2) have t: "tasks ?m4 = []" by simp
  have "finishQueuePass m = ?m4\<lparr>processingQueue := False\<rparr>"
    by (simp add: finishQueuePass_def Let_def)
  with inv_processingQueue [OF i t] show ?thesis by simp
qed

lemma findTask_single:
  assumes "mgr_inv m" "findTask ctl m = Some t"
  shows "tasks m = [t]" "t_ctl t = ctl"
proof -
  from assms(2) have "t \<in> set (tasks m)" and c: "t_ctl t = ctl"
    by (auto simp: findTask_def find_Some_iff)
  moreover from assms(1) have "length (tasks m) \<le> 1" by (simp add: mgr_inv_def base_inv_def)
  ultimately show "tasks m = [t]"
    by (cases "tasks m") auto
  show "t_ctl t = ctl" by (rule c)
qed

lemma inv_end_task:
  assumes "mgr_inv m" "\<forall>f \<in> set (files m). f_status f \<noteq> Uploading"
  shows "mgr_inv (m\<lparr>abortControllers := filter P (abortControllers m), tasks := []\<rparr>)"
  using assms by (auto simp: mgr_inv_def base_inv_def uploading_ok_def controllers_ok_def)

lemma updateFileStatus_sets:
  "\<forall>f \<in> set (files (updateFileStatus fid st qp m)). f_id f = fid \<longrightarrow> f_status f = st"
proof (intro ballI impI)
  fix f assume fin: "f \<in> set (files (updateFileStatus fid st qp m))" and i: "f_id f = fid"
  from fin obtain f0 where f0: "f0 \<in> set (files m)"
    and e: "f = (if f_id f0 = fid
                then f0\<lparr>f_status := st,
                        f_queuePosition := (if qp \<noteq> Undefined then qp else f_queuePosition f0)\<rparr>
                else f0)"
    unfolding updateFileStatus_def by auto
  show "f_status f = st"
  proof (cases "f_id f0 = fid")
    case True
    with e show ?thesis by simp
  next
    case False
    with e i show ?thesis by simp
  qed
qed

lemma updateFileStatus_others:
  "\<forall>f \<in> set (files (updateFileStatus fid st qp m)). f_id f \<noteq> fid \<longrightarrow> f \<in> set (files m)"
  by (auto simp: updateFileStatus_def)

lemma updateFileStatus_frame:
  "activeFileId (updateFileStatus fid st qp m) = activeFileId m"
  "uploadQueue (updateFileStatus fid st qp m) = uploadQueue m"
  "paused (updateFileStatus fid st qp m) = paused m"
  "processingQueue (updateFileStatus fid st qp m) = processingQueue m"
  "abortControllers (updateFileStatus fid st qp m) = abortControllers m"
  "aborted (updateFileStatus fid st qp m) = aborted m"
  "nextCtl (updateFileStatus fid st qp m) = nextCtl m"
  "tasks (updateFileStatus fid st qp m) = tasks m"
  "requests (updateFileStatus fid st qp m) = requests m"
  "timers (updateFileStatus fid st qp m) = timers m"
  "clock (updateFileStatus fid st qp m) = clock m"
  "sendLog (updateFileStatus fid st qp m) = sendLog m"
  "seenIds (updateFileStatus fid st qp m) = seenIds m"
  "map f_id (files (updateFileStatus fid st qp m)) = map f_id (files m)"
  by (simp_all add: updateFileStatus_def comp_def cong: if_cong)

lemma no_uploading_after_status:
  assumes "mgr_inv m" "tasks m = [t]" "st \<noteq> Uploading"
  shows "\<forall>f \<in> set (files (updateFileStatus (t_file t) st qp m)). f_status f \<noteq> Uploading"
proof
  fix f assume f: "f \<in> set (files (updateFileStatus (t_file t) st qp m))"
  show "f_status f \<noteq> Uploading"
  proof (cases "f_id f = t_file t")
    case True
    with updateFileStatus_sets f assms(3) show ?thesis by metis
  next
    case False
    with updateFileStatus_others f have fm: "f \<in> set (files m)" by blast
    show ?thesis
    proof
      assume "f_status f = Uploading"
      with assms(1) fm have "\<exists>t' \<in> set (tasks m). t_file t' = f_id f"
        unfolding mgr_inv_def uploading_ok_def by blast
      with assms(2) False show False by simp
    qed
  qed
qed

lemma inv_uploadEnded:
  assumes "mgr_inv m" "findTask ctl m = Some t" "st \<noteq> Uploading"
  shows "mgr_inv (finishQueuePass (removeTask (t_ctl t)
           ((updateFileStatus (t_file t) st qp m)
              \<lparr>abortControllers := filter P (abortControllers (updateFileStatus (t_file t) st qp m))\<rparr>)))"
proof -
  let ?m1 = "updateFileStatus (t_file t) st qp m"
  note ts = findTask_single [OF assms(1,2)]
  have i1: "mgr_inv ?m1" by (rule quiet_inv [OF assms(1) quiet_updateFileStatus [OF assms(3)]])
  have nu: "\<forall>f \<in> set (files ?m1). f_status f \<noteq> Uploading"
    by (rule no_uploading_after_status [OF assms(1) ts(1) assms(3)])
  have "removeTask (t_ctl t) (?m1\<lparr>abortControllers := filter P (abortControllers ?m1)\<rparr>) =
        ?m1\<lparr>abortControllers := filter P (abortControllers ?m1), tasks := []\<rparr>"
    by (simp add: removeTask_def updateFileStatus_frame ts)
  with inv_end_task [OF i1 nu, of P]
  have "mgr_inv (removeTask (t_ctl t) (?m1\<lparr>abortControllers := filter P (abortControllers ?m1)\<rparr>))"
    and "tasks (removeTask (t_ctl t) (?m1\<lparr>abortControllers := filter P (abortControllers ?m1)\<rparr>)) = []"
    by simp_all
  then show ?thesis by (rule inv_finishQueuePass)
qed

lemma inv_uploadFailed:
  "mgr_inv m \<Longrightarrow> findTask ctl m = Some t \<Longrightarrow> mgr_inv (uploadFailed t m)"
  unfolding uploadFailed_def Let_def by (rule inv_uploadEnded) simp_all

lemma inv_uploadSucceeded:
  "mgr_inv m \<Longrightarrow> findTask ctl m = Some t \<Longrightarrow> mgr_inv (uploadSucceeded t m)"
  unfolding uploadSucceeded_def Let_def by (rule inv_uploadEnded) simp_all

lemma inv_uploadAborted:
  assumes "mgr_inv m" "findTask ctl m = Some t" "ctl \<in> set (aborted m)"
  shows "mgr_inv (uploadAborted t m)"
proof -
  note ts = findTask_single [OF assms(1,2)]
  have nu: "\<forall>f \<in> set (files m). f_status f \<noteq> Uploading"
  proof
    fix f assume f: "f \<in> set (files m)"
    show "f_status f \<noteq> Uploading"
    proof
      assume "f_status f = Uploading"
      with assms(1) f have "\<exists>t' \<in> set (tasks m). t_file t' = f_id f \<and> t_ctl t' \<notin> set (aborted m)"
        unfolding mgr_inv_def uploading_ok_def by blast
      with ts assms(3) show False by simp
    qed
  qed
  have "removeTask (t_ctl t) m = m\<lparr>abortControllers := filter (\<lambda>_. True) (abortControllers m), tasks := []\<rparr>"
    by (simp add: removeTask_def ts)
  with inv_end_task [OF assms(1) nu, of "\<lambda>_. True"]
  have "mgr_inv (removeTask (t_ctl t) m)" "tasks (removeTask (t_ctl t) m) = []" by simp_all
  then show ?thesis unfolding uploadAborted_def by (rule inv_finishQueuePass)
qed

lemma mgr_invI:
  assumes "distinct (map f_id (files m))" and "f_id ` set (files m) \<subseteq> set (seenIds m)"
    and "\<forall>f \<in> set (files m). counted f" and "length (tasks m) \<le> 1"
    and "tasks m \<noteq> [] \<longrightarrow> processingQueue m" and "controllers_ok m" and "uploading_ok m"
  shows "mgr_inv m"
  using assms by (simp add: mgr_inv_def base_inv_def)

lemma mgr_invD:
  assumes "mgr_inv m"
  shows "distinct (map f_id (files m))" and "f_id ` set (files m) \<subseteq> set (seenIds m)"
    and "\<forall>f \<in> set (files m). counted f" and "length (tasks m) \<le> 1"
    and "tasks m \<noteq> [] \<longrightarrow> processingQueue m" and "controllers_ok m" and "uploading_ok m"
  using assms by (simp_all add: mgr_inv_def base_inv_def)

lemma inv_beginUploadFile:
  assumes inv: "mgr_inv m" and t0: "tasks m = []" and pq: "processingQueue m"
  shows "mgr_inv (beginUploadFile fid m)"
proof (cases "find (\<lambda>f. f_id f = fid) (files m)")
  case None
  then show ?thesis by (simp add: beginUploadFile_def inv_finishQueuePass [OF inv t0])
next
  case (Some fl)
  show ?thesis
  proof (cases "f_status fl = FileCompleted \<or> f_status fl = Uploading")
    case True
    with Some inv_finishQueuePass [OF inv t0] show ?thesis by (auto simp: beginUploadFile_def)
  next
    case False
    define m1 where "m1 = updateFileStatus fid Uploading Undefined m"
    define c where "c = nextCtl m"
    define nt where "nt = \<lparr>t_file = fid, t_ctl = c, t_phase = AwaitInit,
                            chunkQueue = [], activeChunks = [], results = []\<rparr>"
    define R where "R = m1\<lparr>nextCtl := Suc c,
        abortControllers := filter (\<lambda>kc. fst kc \<noteq> fid) (abortControllers m) @ [(fid, c)],
        tasks := [nt]\<rparr>"
    have e: "beginUploadFile fid m = R"
      using Some False unfolding R_def m1_def c_def nt_def
      by (simp add: beginUploadFile_def Let_def updateFileStatus_frame t0)
    note d = mgr_invD [OF inv]
    have fr: "files R = files m1" "seenIds R = seenIds m" "tasks R = [nt]" "processingQueue R"
      "aborted R = aborted m" "nextCtl R = Suc c"
      "abortControllers R = filter (\<lambda>kc. fst kc \<noteq> fid) (abortControllers m) @ [(fid, c)]"
      unfolding R_def m1_def using pq by (simp_all add: updateFileStatus_frame)
    have f1: "distinct (map f_id (files m1))" unfolding m1_def updateFileStatus_frame by (rule d(1))
    have "set (map f_id (files m1)) = set (map f_id (files m))"
      unfolding m1_def updateFileStatus_frame ..
    then have f2: "f_id ` set (files m1) \<subseteq> set (seenIds m)" using d(2) by simp
    have f3: "\<forall>f \<in> set (files m1). counted f"
      unfolding m1_def updateFileStatus_def using d(3) by (auto simp: counted_def)
    have f4: "\<forall>f \<in> set (files m1). f_status f = Uploading \<longrightarrow> f_id f = fid"
    proof (intro ballI impI)
      fix f assume f: "f \<in> set (files m1)" "f_status f = Uploading"
      show "f_id f = fid"
      proof (rule ccontr)
        assume "f_id f \<noteq> fid"
        with updateFileStatus_others f(1) have "f \<in> set (files m)" unfolding m1_def by blast
        with f(2) d(7) t0 show False unfolding uploading_ok_def by auto
      qed
    qed
    have f5: "\<forall>a \<in> set (aborted m). a < c" using d(6) unfolding c_def controllers_ok_def by blast
    have f6: "\<forall>kc \<in> set (abortControllers m). snd kc < c"
      using d(6) unfolding c_def controllers_ok_def by blast
    have "mgr_inv R"
    proof (rule mgr_invI)
      show "distinct (map f_id (files R))" unfolding fr by (rule f1)
      show "f_id ` set (files R) \<subseteq> set (seenIds R)" unfolding fr by (rule f2)
      show "\<forall>f \<in> set (files R). counted f" unfolding fr by (rule f3)
      show "length (tasks R) \<le> 1" unfolding fr by simp
      show "tasks R \<noteq> [] \<longrightarrow> processingQueue R" using fr(4) by simp
      show "controllers_ok R"
        unfolding controllers_ok_def fr using f5 f6 by (auto simp: nt_def less_Suc_eq)
      show "uploading_ok R"
        unfolding uploading_ok_def fr using f4 f5 by (auto simp: nt_def)
    qed
    with e show ?thesis by simp
  qed
qed

lemma inv_processQueue:
  assumes inv: "mgr_inv m"
  shows "mgr_inv (processQueue m)"
proof (cases "processingQueue m \<or> paused m \<or> uploadQueue m = []")
  case True
  then show ?thesis using inv by (auto simp: processQueue_def)
next
  case False
  then have npq: "\<not> processingQueue m" "\<not> paused m" "uploadQueue m \<noteq> []" by auto
  from inv npq(1) have t0: "tasks m = []" by (auto simp: mgr_inv_def base_inv_def)
  have i1: "\<And>b. mgr_inv (m\<lparr>processingQueue := b\<rparr>)" by (rule inv_processingQueue [OF inv t0])
  obtain nx rest where q: "uploadQueue m = nx # rest" using npq(3) by (cases "uploadQueue m") auto
  show ?thesis
  proof (cases "activeFileId m \<noteq> None \<or> nx = []")
    case True
    with npq q i1 [of False] show ?thesis by (auto simp: processQueue_def Let_def)
  next
    case False
    define m2 where "m2 = m\<lparr>processingQueue := True, activeFileId := Some nx\<rparr>"
    have "quiet (m\<lparr>processingQueue := True\<rparr>) m2"
      unfolding m2_def by (simp add: quiet_def files_ok_refl)
    with i1 [of True] have "mgr_inv m2" by (rule quiet_inv)
    moreover have "tasks m2 = []" "processingQueue m2" unfolding m2_def using t0 by simp_all
    ultimately have "mgr_inv (beginUploadFile nx m2)" by (rule inv_beginUploadFile)
    with npq q False show ?thesis by (simp add: processQueue_def Let_def m2_def)
  qed
qed

lemma inv_abortUpload:
  assumes inv: "mgr_inv m"
  shows "mgr_inv (abortUpload fid m)"
proof -
  define m1 where "m1 = (case map_of (abortControllers m) fid of
                  None \<Rightarrow> m
                | Some controller \<Rightarrow>
                    m\<lparr>aborted := controller # aborted m,
                      abortControllers := filter (\<lambda>kc. fst kc \<noteq> fid) (abortControllers m)\<rparr>)"
  define m2 where "m2 = updateFileStatus fid Pending Undefined m1"
  note d = mgr_invD [OF inv]
  have b1: "base_inv m1"
  proof (cases "map_of (abortControllers m) fid")
    case None
    then show ?thesis using inv by (simp add: m1_def mgr_inv_def)
  next
    case (Some c)
    then have "(fid, c) \<in> set (abortControllers m)" by (rule map_of_SomeD)
    with d(6) have "c < nextCtl m" by (auto simp: controllers_ok_def)
    with inv Some show ?thesis
      by (auto simp: m1_def mgr_inv_def base_inv_def controllers_ok_def)
  qed
  have q: "quiet m1 m2" unfolding m2_def by (rule quiet_updateFileStatus) simp
  have b2: "base_inv m2" by (rule quiet_base [OF b1 q])
  have fm1: "files m1 = files m" "tasks m1 = tasks m"
    unfolding m1_def by (simp_all split: option.splits)
  have u2: "uploading_ok m2"
    unfolding uploading_ok_def
  proof (intro ballI impI)
    fix f assume f: "f \<in> set (files m2)" "f_status f = Uploading"
    have ne: "f_id f \<noteq> fid"
      using updateFileStatus_sets [of fid Pending Undefined m1] f unfolding m2_def by auto
    with updateFileStatus_others f(1) have "f \<in> set (files m1)" unfolding m2_def by blast
    then have fm: "f \<in> set (files m)" unfolding fm1 .
    with d(7) f(2) obtain t where t: "t \<in> set (tasks m)" "t_file t = f_id f" "t_ctl t \<notin> set (aborted m)"
      unfolding uploading_ok_def by blast
    have "t_ctl t \<notin> set (aborted m1)"
    proof (cases "map_of (abortControllers m) fid")
      case None
      with t(3) show ?thesis by (simp add: m1_def)
    next
      case (Some c)
      then have "(fid, c) \<in> set (abortControllers m)" by (rule map_of_SomeD)
      with d(6) t(1) have "t_ctl t = c \<longrightarrow> t_file t = fid" by (auto simp: controllers_ok_def)
      with t(2) ne have "t_ctl t \<noteq> c" by auto
      with t(3) Some show ?thesis by (simp add: m1_def)
    qed
    moreover have "tasks m2 = tasks m" "aborted m2 = aborted m1"
      unfolding m2_def by (simp_all add: updateFileStatus_frame fm1)
    ultimately show "\<exists>t \<in> set (tasks m2). t_file t = f_id f \<and> t_ctl t \<notin> set (aborted m2)"
      using t by auto
  qed
  have i2: "mgr_inv m2" using b2 u2 by (simp add: mgr_inv_def)
  have "abortUpload fid m = (if activeFileId m2 = Some fid then m2\<lparr>activeFileId := None\<rparr> else m2)"
    by (simp add: abortUpload_def Let_def m1_def m2_def)
  with i2 quiet_inv [OF i2 quiet_fields(2) [of m2 None]] show ?thesis by simp
qed

lemma inv_removeFile:
  assumes inv: "mgr_inv m"
  shows "mgr_inv (removeFile fid m)"
proof -
  define m1 where "m1 = (case find (\<lambda>f. f_id f = fid) (files m) of
                  None \<Rightarrow> m
                | Some file \<Rightarrow>
                    if Some fid = activeFileId m
                    then (abortUpload fid m)\<lparr>activeFileId := None\<rparr>
                    else m)"
  have i1: "mgr_inv m1"
    unfolding m1_def using inv quiet_inv [OF inv_abortUpload [OF inv] quiet_fields(2)]
    by (simp split: option.splits)
  define m3 where "m3 = updateQueuePositions (m1\<lparr>files := filter (\<lambda>f. f_id f \<noteq> fid) (files m1)\<rparr>)"
  have i3: "mgr_inv m3"
    unfolding m3_def by (rule quiet_inv [OF i1 quiet_trans [OF quiet_fields(9) quiet_updateQueuePositions]])
  have "removeFile fid m = (if activeFileId m3 = None \<and> \<not> paused m3 then processQueue m3 else m3)"
    by (simp add: removeFile_def Let_def m1_def m3_def)
  with i3 inv_processQueue [OF i3] show ?thesis by simp
qed

lemma inv_pauseAll:
  assumes inv: "mgr_inv m"
  shows "mgr_inv (pauseAll m)"
proof -
  have a: "quiet m (m\<lparr>paused := True\<rparr>)" by (rule quiet_fields)
  have b: "\<And>fid. quiet m (updateFileStatus fid Paused Undefined (m\<lparr>paused := True\<rparr>))"
    by (rule quiet_trans [OF a quiet_updateFileStatus]) simp
  show ?thesis
    unfolding pauseAll_def Let_def
    using quiet_inv [OF inv a] quiet_inv [OF inv b] by (simp split: option.splits)
qed

lemma inv_resumeAll:
  assumes inv: "mgr_inv m"
  shows "mgr_inv (resumeAll m)"
proof -
  define m1 where "m1 = m\<lparr>paused := False\<rparr>"
  define m2 where "m2 = (case activeFileId m1 of
                  None \<Rightarrow> m1
                | Some fileId \<Rightarrow>
                    (case find (\<lambda>f. f_id f = fileId) (files m1) of
                       None \<Rightarrow> m1
                     | Some activeFile \<Rightarrow>
                         if f_status activeFile = Paused
                         then updateFileStatus fileId Pending Undefined m1
                         else m1))"
  have a: "quiet m m1" unfolding m1_def by (rule quiet_fields)
  have b: "\<And>fid. quiet m1 (updateFileStatus fid Pending Undefined m1)"
    by (rule quiet_updateFileStatus) simp
  have "quiet m1 m2" unfolding m2_def using b by (simp add: quiet_refl split: option.splits)
  with a have "quiet m m2" by (rule quiet_trans)
  have e: "resumeAll m = processQueue m2"
    unfolding resumeAll_def Let_def m2_def m1_def by (rule refl)
  from inv_processQueue [OF quiet_inv [OF inv \<open>quiet m m2\<close>]] show ?thesis
    unfolding e .
qed

lemma inv_startUpload:
  assumes inv: "mgr_inv m"
  shows "mgr_inv (startUpload m)"
  unfolding startUpload_def
  by (rule inv_processQueue [OF quiet_inv [OF inv quiet_trans [OF quiet_fields(3) quiet_updateQueuePositions]]])

lemma quiet_foldl:
  assumes "\<And>m x. quiet m (g m x)"
  shows "quiet m (foldl g m xs)"
proof (induction xs arbitrary: m)
  case Nil
  show ?case by (simp add: quiet_refl)
next
  case (Cons x xs)
  from quiet_trans [OF assms Cons [of "g m x"]] show ?case by simp
qed

lemma quiet_resetFailedChunks: "quiet m (resetFailedChunks m file)"
proof -
  have a: "quiet m (updateFileStatus (f_id file) Pending Undefined m)"
    by (rule quiet_updateFileStatus) simp
  have b: "\<And>m' ci. quiet m' (if c_status (fst ci) = ChunkError
                     then updateChunkStatus (f_id file) (snd ci) ChunkPending m' else m')"
    by (simp add: quiet_updateChunkStatus quiet_refl)
  show ?thesis
    unfolding resetFailedChunks_def
    by (rule quiet_trans [OF a quiet_foldl]) (rule b)
qed

lemma inv_retryFailed:
  assumes inv: "mgr_inv m"
  shows "mgr_inv (retryFailed m)"
proof -
  have "quiet m (foldl resetFailedChunks m (filter (\<lambda>file. f_status file = FileError) (files m)))"
    by (rule quiet_foldl) (rule quiet_resetFailedChunks)
  from inv_processQueue [OF quiet_inv [OF inv quiet_trans [OF this quiet_updateQueuePositions]]]
  show ?thesis by (simp add: retryFailed_def Let_def)
qed

lemma cancel_fold_status:
  "\<forall>f \<in> set (files (foldl (\<lambda>m' file. if f_status file = Uploading \<or> f_status file = Paused
                                    \<or> f_status file = Queued
                                 then updateFileStatus (f_id file) Pending Undefined m' else m') m xs)).
     f_status f = Uploading \<longrightarrow>
       f \<in> set (files m) \<and> (\<forall>x \<in> set xs. f_id x = f_id f \<longrightarrow> f_status x \<noteq> Uploading)"
proof (induction xs arbitrary: m)
  case Nil
  show ?case by simp
next
  case (Cons x xs)
  let ?g = "\<lambda>m' file. if f_status file = Uploading \<or> f_status file = Paused \<or> f_status file = Queued
                 then updateFileStatus (f_id file) Pending Undefined m' else m'"
  show ?case
  proof (intro ballI impI)
    fix f assume f: "f \<in> set (files (foldl ?g m (x # xs)))" "f_status f = Uploading"
    then have "f \<in> set (files (foldl ?g (?g m x) xs))" by simp
    with Cons [of "?g m x"] f(2)
    have a: "f \<in> set (files (?g m x))" and b: "\<forall>y \<in> set xs. f_id y = f_id f \<longrightarrow> f_status y \<noteq> Uploading"
      by blast+
    have "f \<in> set (files m) \<and> (f_id x = f_id f \<longrightarrow> f_status x \<noteq> Uploading)"
    proof (cases "f_status x = Uploading \<or> f_status x = Paused \<or> f_status x = Queued")
      case True
      with a have a': "f \<in> set (files (updateFileStatus (f_id x) Pending Undefined m))" by simp
      with updateFileStatus_sets [of "f_id x" Pending Undefined m] f(2) have ne: "f_id f \<noteq> f_id x"
        by auto
      with updateFileStatus_others a' have "f \<in> set (files m)" by blast
      with ne show ?thesis by auto
    next
      case False
      with a show ?thesis by auto
    qed
    with b show "f \<in> set (files m) \<and> (\<forall>y \<in> set (x # xs). f_id y = f_id f \<longrightarrow> f_status y \<noteq> Uploading)"
      by simp
  qed
qed

lemma inv_cancelAll:
  assumes inv: "mgr_inv m"
  shows "mgr_inv (cancelAll m)"
proof -
  let ?g = "\<lambda>m' file. if f_status file = Uploading \<or> f_status file = Paused \<or> f_status file = Queued
                 then updateFileStatus (f_id file) Pending Undefined m' else m'"
  define m1 where "m1 = m\<lparr>aborted := map snd (abortControllers m) @ aborted m, abortControllers := []\<rparr>"
  define m2 where "m2 = foldl ?g m1 (files m1)"
  have b1: "base_inv m1"
    using inv unfolding m1_def by (auto simp: mgr_inv_def base_inv_def controllers_ok_def)
  have q: "quiet m1 m2"
    unfolding m2_def by (rule quiet_foldl) (simp add: quiet_updateFileStatus quiet_refl)
  have b2: "base_inv m2" by (rule quiet_base [OF b1 q])
  have "\<forall>f \<in> set (files m2). f_status f \<noteq> Uploading"
  proof
    fix f assume f: "f \<in> set (files m2)"
    show "f_status f \<noteq> Uploading"
    proof
      assume u: "f_status f = Uploading"
      with cancel_fold_status [of m1 "files m1"] f
      have "f \<in> set (files m1)" "\<forall>x \<in> set (files m1). f_id x = f_id f \<longrightarrow> f_status x \<noteq> Uploading"
        unfolding m2_def by blast+
      with u show False by blast
    qed
  qed
  then have "uploading_ok m2" by (simp add: uploading_ok_def)
  with b2 have i2: "mgr_inv m2" by (simp add: mgr_inv_def)
  have "cancelAll m = updateQueuePositions (m2\<lparr>activeFileId := None\<rparr>)"
    by (simp add: cancelAll_def Let_def m1_def m2_def)
  with quiet_inv [OF i2 quiet_trans [OF quiet_fields(2) quiet_updateQueuePositions]]
  show ?thesis by simp
qed

lemma inv_clearCompleted:
  assumes inv: "mgr_inv m"
  shows "mgr_inv (clearCompleted m)"
  unfolding clearCompleted_def
  by (rule quiet_inv [OF inv quiet_trans [OF quiet_fields(9) quiet_updateQueuePositions]])

lemma counted_newChunkedFile: "counted (newChunkedFile opts m file)"
  by (simp add: counted_def newChunkedFile_def Let_def filter_map comp_def)

lemma inv_addFiles:
  assumes inv: "mgr_inv m"
  shows "mgr_inv (addFiles opts newFiles m)"
proof (cases "\<not> freshIds m (map fst newFiles) \<or> o_chunkSize opts = 0")
  case True
  then show ?thesis using inv by (auto simp: addFiles_def)
next
  case False
  then have fr: "distinct (map fst newFiles)" "set (map fst newFiles) \<inter> set (seenIds m) = {}"
    by (simp_all add: freshIds_def)
  define new where "new = map (newChunkedFile opts m) newFiles"
  define m1 where "m1 = m\<lparr>files := files m @ new, seenIds := seenIds m @ map fst newFiles\<rparr>"
  have ids: "map f_id new = map fst newFiles"
    unfolding new_def by (simp add: newChunkedFile_def Let_def comp_def)
  have st: "\<forall>f \<in> set new. f_status f \<noteq> Uploading"
    unfolding new_def by (auto simp: newChunkedFile_def Let_def)
  have cn: "\<forall>f \<in> set new. counted f"
    unfolding new_def by (auto simp: counted_newChunkedFile)
  note d = mgr_invD [OF inv]
  have fr1: "files m1 = files m @ new" "seenIds m1 = seenIds m @ map fst newFiles"
    "tasks m1 = tasks m" "processingQueue m1 = processingQueue m" "aborted m1 = aborted m"
    "nextCtl m1 = nextCtl m" "abortControllers m1 = abortControllers m"
    unfolding m1_def by simp_all
  have "mgr_inv m1"
  proof (rule mgr_invI)
    have "set (map f_id (files m)) \<inter> set (map fst newFiles) = {}" using d(2) fr(2) by auto
    then show "distinct (map f_id (files m1))"
      unfolding fr1 using d(1) fr(1) ids by simp
    have "f_id ` set new = set (map fst newFiles)" using ids by (metis set_map)
    then show "f_id ` set (files m1) \<subseteq> set (seenIds m1)" unfolding fr1 using d(2) by auto
    show "\<forall>f \<in> set (files m1). counted f" unfolding fr1 using d(3) cn by auto
    show "length (tasks m1) \<le> 1" unfolding fr1 by (rule d(4))
    show "tasks m1 \<noteq> [] \<longrightarrow> processingQueue m1" unfolding fr1 by (rule d(5))
    show "controllers_ok m1" using d(6) unfolding controllers_ok_def fr1 .
    show "uploading_ok m1" using d(7) st unfolding uploading_ok_def fr1 by auto
  qed
  from quiet_inv [OF this quiet_updateQueuePositions] False show ?thesis
    by (simp add: addFiles_def Let_def m1_def new_def)
qed

lemma inv_loopIteration:
  assumes inv: "mgr_inv m"
  shows "mgr_inv (loopIteration opts ctl m)"
proof (cases "findTask ctl m")
  case None
  then show ?thesis using inv by (simp add: loopIteration_def)
next
  case (Some t)
  note ts = findTask_single [OF inv Some]
  have qa: "quiet m (updateTask ctl (\<lambda>t. t\<lparr>t_phase := AwaitComplete\<rparr>) m)"
    by (rule quiet_updateTask) simp
  show ?thesis
  proof (cases "chunkQueue t = [] \<and> activeChunks t = []")
    case True
    with Some inv_uploadFailed [OF inv Some] quiet_inv [OF inv qa] show ?thesis
      by (simp add: loopIteration_def)
  next
    case False
    show ?thesis
    proof (cases "paused m \<or> ctl \<in> set (aborted m)")
      case True
      with Some False quiet_inv [OF inv qa] show ?thesis by (auto simp: loopIteration_def)
    next
      case np: False
      define found where "found = (find (\<lambda>f. f_id f = t_file t) (files m) \<noteq> None)"
      obtain q a st m1 where fc: "fillChunks (o_maxConcurrentChunks opts) found ctl (t_file t)
                      (chunkQueue t) (activeChunks t) m = (q, a, st, m1)"
        by (cases "fillChunks (o_maxConcurrentChunks opts) found ctl (t_file t)
                      (chunkQueue t) (activeChunks t) m") auto
      define t' where "t' = (if found then t\<lparr>chunkQueue := q, activeChunks := a\<rparr>
                             else t\<lparr>chunkQueue := q,
                                    activeChunks := filter (\<lambda>i. i \<notin> set st) a,
                                    results := foldl (\<lambda>r i. r[i := RError]) (results t) st\<rparr>)"
      have e: "loopIteration opts ctl m = addTimer 100 (TLoopWake ctl) (updateTask ctl (\<lambda>_. t') m1)"
        using Some False np fc unfolding found_def t'_def
        by (cases "chunkQueue t = []") (simp_all add: loopIteration_def Let_def)
      have q1: "quiet m m1"
        using quiet_fillChunks [of m "o_maxConcurrentChunks opts" found ctl "t_file t" "chunkQueue t" "activeChunks t"]
        unfolding fc by simp
      have t1: "tasks m1 = [t]"
        using tasks_fillChunks [of "o_maxConcurrentChunks opts" found ctl "t_file t" "chunkQueue t" "activeChunks t" m]
        unfolding fc by (simp add: ts)
      have q2: "quiet m1 (updateTask ctl (\<lambda>_. t') m1)"
        by (rule quiet_updateTask) (auto simp: t1 t'_def)
      show ?thesis
        unfolding e by (rule quiet_inv [OF inv quiet_trans [OF q1 quiet_trans [OF q2 quiet_addTimer]]])
    qed
  qed
qed

lemma inv_initResponse:
  assumes inv: "mgr_inv m"
  shows "mgr_inv (initResponse opts ctl ok m)"
proof (cases "findTask ctl m")
  case None
  then show ?thesis using inv by (simp add: initResponse_def)
next
  case (Some t)
  have a1: "mgr_inv (updateTask ctl (\<lambda>t. t\<lparr>t_phase := AwaitComplete\<rparr>) m)"
    by (rule quiet_inv [OF inv], rule quiet_updateTask) simp
  have a2: "\<And>file. mgr_inv (loopIteration opts ctl
                     (updateTask ctl (\<lambda>t. t\<lparr>t_phase := ChunkLoop,
                          chunkQueue := filter (\<lambda>c. c_status c \<noteq> ChunkCompleted) (f_chunks file),
                          activeChunks := [],
                          results := replicate (f_totalChunks file) RNull\<rparr>) m))"
    by (rule inv_loopIteration, rule quiet_inv [OF inv], rule quiet_updateTask) simp
  show ?thesis
  proof (cases "t_phase t \<noteq> AwaitInit \<or> ctl \<in> set (aborted m) \<or> \<not> ok")
    case True
    with inv Some inv_uploadAborted [OF inv Some] inv_uploadFailed [OF inv Some] show ?thesis
      by (auto simp: initResponse_def)
  next
    case False
    then have h: "t_phase t = AwaitInit" "ctl \<notin> set (aborted m)" "ok" by auto
    show ?thesis
    proof (cases "find (\<lambda>f. f_id f = t_file t) (files m)")
      case None
      with Some h a1 show ?thesis by (simp add: initResponse_def)
    next
      case (Some fl)
      with \<open>findTask ctl m = Some t\<close> h
      have e: "initResponse opts ctl ok m = loopIteration opts ctl
                     (updateTask ctl (\<lambda>t. t\<lparr>t_phase := ChunkLoop,
                          chunkQueue := filter (\<lambda>c. c_status c \<noteq> ChunkCompleted) (f_chunks fl),
                          activeChunks := [],
                          results := replicate (f_totalChunks fl) RNull\<rparr>) m)"
        by (simp add: initResponse_def Let_def)
      show ?thesis unfolding e by (rule a2)
    qed
  qed
qed

lemma inv_completeResponse:
  assumes inv: "mgr_inv m"
  shows "mgr_inv (completeResponse ctl resp m)"
proof (cases "findTask ctl m")
  case None
  then show ?thesis using inv by (simp add: completeResponse_def)
next
  case (Some t)
  show ?thesis
    unfolding completeResponse_def
    using inv Some inv_uploadAborted [OF inv Some] inv_uploadFailed [OF inv Some]
      inv_uploadSucceeded [OF inv Some]
    by (simp split: option.splits)
qed

lemma inv_fireTimer:
  assumes inv: "mgr_inv m"
  shows "mgr_inv (fireTimer opts m)"
proof (cases "earliest (timers m)")
  case None
  then show ?thesis using inv by (simp add: fireTimer_def)
next
  case (Some x)
  obtain deadline t rest where x: "x = ((deadline, t), rest)" by (cases x) auto
  define m0 where "m0 = m\<lparr>timers := rest, clock := max (clock m) deadline\<rparr>"
  have i0: "mgr_inv m0" unfolding m0_def by (rule quiet_inv [OF inv quiet_fields(8)])
  have e: "fireTimer opts m =
       (case t of
               TProcessQueue \<Rightarrow> processQueue m0
             | TLoopWake ctl \<Rightarrow>
                 (case findTask ctl m0 of
                    None \<Rightarrow> m0
                  | Some t \<Rightarrow> if t_phase t = ChunkLoop then loopIteration opts ctl m0 else m0)
             | TRetry ctl chunk \<Rightarrow>
                 if \<not> paused m0 \<and> ctl \<notin> set (aborted m0)
                 then updateTask ctl (\<lambda>t. if t_phase t = ChunkLoop
                                           then t\<lparr>chunkQueue := chunkQueue t @ [chunk]\<rparr> else t) m0
                 else m0)"
    unfolding fireTimer_def Some x option.case prod.case Let_def m0_def by (rule refl)
  have r: "\<And>ctl chunk. mgr_inv (updateTask ctl (\<lambda>t. if t_phase t = ChunkLoop
                                           then t\<lparr>chunkQueue := chunkQueue t @ [chunk]\<rparr> else t) m0)"
    by (rule quiet_inv [OF i0], rule quiet_updateTask) simp
  show ?thesis
    unfolding e using i0 inv_processQueue [OF i0] inv_loopIteration [OF i0] r
    by (simp split: timer.splits option.splits)
qed

lemma inv_elapse:
  assumes inv: "mgr_inv m"
  shows "mgr_inv (elapse d m)"
  unfolding elapse_def using quiet_inv [OF inv quiet_fields(5)]
  by (simp split: option.splits prod.splits)

lemma inv_step:
  assumes inv: "mgr_inv m"
  shows "mgr_inv (step opts m ev)"
  using inv
  by (cases ev)
     (simp_all add: inv_addFiles inv_removeFile inv_startUpload inv_pauseAll inv_resumeAll
        inv_retryFailed inv_cancelAll inv_clearCompleted inv_initResponse
        quiet_inv [OF _ quiet_chunkResponse] inv_completeResponse inv_fireTimer inv_elapse)

lemma inv_run:
  assumes "mgr_inv m"
  shows "mgr_inv (run opts events m)"
  using assms unfolding run_def
proof (induction events arbitrary: m)
  case Nil
  then show ?case by simp
next
  case (Cons ev events)
  from Cons.IH [OF inv_step [OF Cons.prems]] show ?case by simp
qed

lemma inv_initial: "mgr_inv initialManager"
  by (simp add: mgr_inv_def base_inv_def uploading_ok_def controllers_ok_def initialManager_def)

lemma reachable_inv: "mgr_inv (run opts events initialManager)"
  by (rule inv_run [OF inv_initial])

end
